theory Spec2Isabelle
  imports Main "HOL-Library.AList"
begin

section \<open>The flow model (dag.py)\<close>

text \<open>
  A Python \<^verbatim>\<open>dict\<close> is modelled as an association list in insertion order: \<open>map_of\<close>
  is \<^verbatim>\<open>d.get(k)\<close>, \<open>AList.update\<close> is \<^verbatim>\<open>d[k] = v\<close> (replace in place, or append a
  new key at the end). A dictionary has every key once; theorems that depend on it
  assume \<open>distinct (map fst d)\<close>.

  The field \<^verbatim>\<open>workers\<close> of a stage is declared
  \<^verbatim>\<open>dict[str, list[str]] | list[str] | None\<close>; the two shapes that
  \<^verbatim>\<open>isinstance(workers, list)\<close> tells apart are the two constructors.
\<close>

datatype Workers =
  WorkersList "string list"
| WorkersDict "(string \<times> string list) list"

record Stage =
  name :: string
  description :: string
  "next" :: "string option"
  fail :: "string option"
  workers :: "Workers option"
  requires :: "string list"
  terminal :: bool
  skip :: bool

record TaskFlow =
  name :: string
  description :: string
  stages :: "(string \<times> Stage) list"
  dead_ends :: "string list"

record Transition =
  to_status :: string
  eligible_classes :: "string list option"

text \<open>
  \<^verbatim>\<open>_resolve_skip(stage_name, seen)\<close>. The set \<^verbatim>\<open>seen\<close> is created empty by the outermost
  call and mutated by \<^verbatim>\<open>seen.add\<close>; as the recursion is a single chain of calls, passing
  the enlarged set is the same. The recursion ends because every recursive call follows
  a stage of the flow that was not in \<open>seen\<close> before; its depth is at most the number of
  stages of the flow, and the interpreter's stack is taken to be deep enough for that.
\<close>

function resolve_skip :: "TaskFlow \<Rightarrow> string option \<Rightarrow> string set \<Rightarrow> string option" where
  "resolve_skip flow None seen = None"
| "resolve_skip flow (Some stage_name) seen =
     (if stage_name \<in> seen then None
      else (case map_of (stages flow) stage_name of
              None \<Rightarrow> Some stage_name
            | Some stage \<Rightarrow>
                if skip stage then resolve_skip flow (next stage) (insert stage_name seen)
                else Some stage_name))"
  by pat_completeness auto
termination
proof (relation "measure (\<lambda>(flow, stage_name, seen). card (fst ` set (stages flow) - seen))")
  show "wf (measure (\<lambda>(flow, stage_name, seen). card (fst ` set (stages flow) - seen)))"
    by simp
next
  fix flow :: TaskFlow and stage_name :: string and seen :: "string set" and stage :: Stage
  assume fresh: "stage_name \<notin> seen" and found: "map_of (stages flow) stage_name = Some stage"
  have "stage_name \<in> fst ` set (stages flow)"
    using found by (metis domI dom_map_of_conv_image_fst)
  then have "fst ` set (stages flow) - insert stage_name seen \<subset> fst ` set (stages flow) - seen"
    using fresh by blast
  then have "card (fst ` set (stages flow) - insert stage_name seen) < card (fst ` set (stages flow) - seen)"
    by (intro psubset_card_mono) simp_all
  then show "((flow, next stage, insert stage_name seen), (flow, Some stage_name, seen))
      \<in> measure (\<lambda>(flow, stage_name, seen). card (fst ` set (stages flow) - seen))"
    by simp
qed

text \<open>
  \<^verbatim>\<open>next_status(current, passed)\<close>: the outermost call of \<^verbatim>\<open>_resolve_skip\<close> has
  \<^verbatim>\<open>seen=None\<close>, which becomes the empty set.
\<close>

definition next_status :: "TaskFlow \<Rightarrow> string \<Rightarrow> bool \<Rightarrow> string option" where
  "next_status flow current passed =
     (case map_of (stages flow) current of
        None \<Rightarrow> None
      | Some stage \<Rightarrow>
          if terminal stage then None
          else (let target = (if passed then next stage else fail stage)
                in resolve_skip flow target {}))"

text \<open>
  \<^verbatim>\<open>workers_for(status, class_required)\<close>. \<^verbatim>\<open>workers[class_required]\<close> after the test
  \<^verbatim>\<open>class_required in workers\<close> and \<^verbatim>\<open>workers.get("default")\<close> are both lookups.
\<close>

definition workers_for :: "TaskFlow \<Rightarrow> string \<Rightarrow> string \<Rightarrow> string list option" where
  "workers_for flow status class_required =
     (case map_of (stages flow) status of
        None \<Rightarrow> None
      | Some stage \<Rightarrow>
          (case workers stage of
             None \<Rightarrow> None
           | Some (WorkersList ws) \<Rightarrow> Some ws
           | Some (WorkersDict d) \<Rightarrow>
               if class_required \<in> fst ` set d then map_of d class_required
               else map_of d ''default''))"

text \<open>
  \<^verbatim>\<open>valid_transitions(current)\<close>. The tests \<^verbatim>\<open>if next_resolved:\<close> and \<^verbatim>\<open>if stage.fail:\<close>
  are Python truth tests: \<^verbatim>\<open>None\<close> and the empty string are both false.
\<close>

definition truthy_str :: "string option \<Rightarrow> bool" where
  "truthy_str v = (case v of None \<Rightarrow> False | Some s \<Rightarrow> s \<noteq> [])"

definition valid_transitions :: "TaskFlow \<Rightarrow> string \<Rightarrow> string set" where
  "valid_transitions flow current =
     (case map_of (stages flow) current of
        None \<Rightarrow> {}
      | Some stage \<Rightarrow>
          if terminal stage then {}
          else (let result = set (dead_ends flow);
                    next_resolved = resolve_skip flow (next stage) {};
                    result = (if truthy_str next_resolved then insert (the next_resolved) result
                              else result);
                    result = (if truthy_str (fail stage) then insert (the (fail stage)) result
                              else result)
                in result))"

definition transition :: "TaskFlow \<Rightarrow> string \<Rightarrow> string \<Rightarrow> bool \<Rightarrow> Transition option" where
  "transition flow current class_required passed =
     (case next_status flow current passed of
        None \<Rightarrow> None
      | Some to \<Rightarrow> Some \<lparr>to_status = to, eligible_classes = workers_for flow to class_required\<rparr>)"

definition is_terminal :: "TaskFlow \<Rightarrow> string \<Rightarrow> bool" where
  "is_terminal flow status =
     (case map_of (stages flow) status of None \<Rightarrow> False | Some stage \<Rightarrow> terminal stage)"


section \<open>The flow loader (loader.py)\<close>

text \<open>
  A parsed definition. The values of a stage entry are the YAML values of the definition
  format: null, a boolean, a string, a list of strings, or a mapping from strings to lists
  of strings (the class-keyed \<^verbatim>\<open>workers\<close>). A stage entry is a dictionary from field names
  to such values, and \<^verbatim>\<open>stages\<close> is a dictionary from stage names to stage entries.

  The top-level dictionary has the five keys of the format, each present or absent:
  \<^verbatim>\<open>name\<close>, \<^verbatim>\<open>description\<close> and \<^verbatim>\<open>inherits\<close> hold a string, \<^verbatim>\<open>dead_ends\<close> a list of strings
  and \<^verbatim>\<open>stages\<close> a dictionary of stage entries.
\<close>

datatype yaml =
  YNull
| YBool bool
| YStr string
| YList "string list"
| YMap "(string \<times> string list) list"

type_synonym cfg = "(string \<times> yaml) list"

type_synonym stages_dict = "(string \<times> cfg) list"

record raw_flow =
  r_name :: "string option"
  r_description :: "string option"
  r_stages :: "stages_dict option"
  r_inherits :: "string option"
  r_dead_ends :: "string list option"

text \<open>
  The flows directory, as the loader sees it: the parsed content of the file
  \<^verbatim>\<open>flows_dir / f"{stem}.yaml"\<close> if that file exists.
\<close>

type_synonym flows_dir = "string \<Rightarrow> raw_flow option"

text \<open>
  The exceptions of the loader and of the task store, with what their message names.
  \<open>RecursionError\<close> is what the interpreter raises when a call needs a frame and the
  stack has none left.
\<close>

datatype message =
  TaskFlowNotFound string
| ParentFlowNotFound string
| MissingRequiredKeys string "string set"
| HasNoStages string
| MustHaveNext string string
| TaskNotFound string

datatype error =
  FileNotFoundError message
| ValueError message
| KeyError string
| RecursionError

definition REQUIRED_TOP_KEYS :: "string set" where
  "REQUIRED_TOP_KEYS = {''name'', ''description'', ''stages''}"

text \<open>Python's truth test on a YAML value, and \<^verbatim>\<open>cfg.get(key)\<close> under that test.\<close>

fun truthy :: "yaml \<Rightarrow> bool" where
  "truthy YNull = False"
| "truthy (YBool b) = b"
| "truthy (YStr s) = (s \<noteq> [])"
| "truthy (YList xs) = (xs \<noteq> [])"
| "truthy (YMap m) = (m \<noteq> [])"

definition cfg_truthy :: "cfg \<Rightarrow> string \<Rightarrow> bool" where
  "cfg_truthy c key = (case map_of c key of None \<Rightarrow> False | Some v \<Rightarrow> truthy v)"

text \<open>\<^verbatim>\<open>{**a, **b}\<close>: the entries of \<open>a\<close>, then each entry of \<open>b\<close> stored in turn.\<close>

definition dict_merge :: "('k \<times> 'v) list \<Rightarrow> ('k \<times> 'v) list \<Rightarrow> ('k \<times> 'v) list" where
  "dict_merge a b = fold (\<lambda>(k, v) d. AList.update k v d) b a"

text \<open>
  \<^verbatim>\<open>_merge_stages(base_stages, override_stages)\<close>. \<^verbatim>\<open>not override_stages\<close> holds for
  \<^verbatim>\<open>None\<close> and for the empty dictionary. The two loops store into \<^verbatim>\<open>merged\<close>, which
  starts empty.
\<close>

definition merge_stages :: "stages_dict \<Rightarrow> stages_dict option \<Rightarrow> stages_dict" where
  "merge_stages base_stages override_stages =
     (case override_stages of
        None \<Rightarrow> base_stages
      | Some ov \<Rightarrow>
          if ov = [] then base_stages
          else
            (let merged = fold (\<lambda>(name, base_cfg) merged.
                     (case map_of ov name of
                        Some over_cfg \<Rightarrow> AList.update name (dict_merge base_cfg over_cfg) merged
                      | None \<Rightarrow> AList.update name base_cfg merged))
                   base_stages [];
                 merged = fold (\<lambda>(name, c) merged.
                     if name \<notin> fst ` set merged then AList.update name c merged else merged)
                   ov merged
             in merged))"

text \<open>
  \<^verbatim>\<open>_resolve_inheritance(raw, flows_dir)\<close>. The function calls itself on the parent's
  definition with no record of the names it has been through, so on some directories the
  recursion never reaches a definition without \<^verbatim>\<open>inherits\<close>. The first argument is the
  number of nested calls the interpreter's stack still admits: a call with none left
  raises \<open>RecursionError\<close>.

  \<^verbatim>\<open>{**parent_raw, **raw}\<close> on the five keys: the child's value where the child has the
  key, the parent's otherwise; then \<^verbatim>\<open>stages\<close> is stored and \<^verbatim>\<open>inherits\<close> removed.
\<close>

definition override :: "'a option \<Rightarrow> 'a option \<Rightarrow> 'a option" where
  "override parent child = (case child of Some v \<Rightarrow> Some v | None \<Rightarrow> parent)"

fun resolve_inheritance :: "nat \<Rightarrow> flows_dir \<Rightarrow> raw_flow \<Rightarrow> error + raw_flow" where
  "resolve_inheritance 0 flows_dir raw = Inl RecursionError"
| "resolve_inheritance (Suc depth) flows_dir raw =
     (case r_inherits raw of
        None \<Rightarrow> Inr raw
      | Some parent_name \<Rightarrow>
          if parent_name = [] then Inr raw
          else
            (case flows_dir parent_name of
               None \<Rightarrow> Inl (FileNotFoundError (ParentFlowNotFound parent_name))
             | Some parent_file \<Rightarrow>
                 (case resolve_inheritance depth flows_dir parent_file of
                    Inl e \<Rightarrow> Inl e
                  | Inr parent_raw \<Rightarrow>
                      (let merged_stages =
                             merge_stages (case r_stages parent_raw of None \<Rightarrow> [] | Some s \<Rightarrow> s)
                               (r_stages raw);
                           result = \<lparr>r_name = override (r_name parent_raw) (r_name raw),
                                     r_description =
                                       override (r_description parent_raw) (r_description raw),
                                     r_stages = override (r_stages parent_raw) (r_stages raw),
                                     r_inherits =
                                       override (r_inherits parent_raw) (r_inherits raw),
                                     r_dead_ends =
                                       override (r_dead_ends parent_raw) (r_dead_ends raw)\<rparr>;
                           result = result\<lparr>r_stages := Some merged_stages\<rparr>;
                           result = result\<lparr>r_inherits := None\<rparr>
                       in Inr result))))"

text \<open>
  \<^verbatim>\<open>_validate(raw, name)\<close>: the required keys, then a non-empty \<^verbatim>\<open>stages\<close>, then the loop
  over the stages in the dictionary's order, which stops at the first stage that is not
  skipped, not terminal and has no key \<^verbatim>\<open>next\<close>.
\<close>

definition raw_keys :: "raw_flow \<Rightarrow> string set" where
  "raw_keys raw =
     (if r_name raw = None then {} else {''name''}) \<union>
     (if r_description raw = None then {} else {''description''}) \<union>
     (if r_stages raw = None then {} else {''stages''}) \<union>
     (if r_inherits raw = None then {} else {''inherits''}) \<union>
     (if r_dead_ends raw = None then {} else {''dead_ends''})"

fun validate_stages :: "string \<Rightarrow> stages_dict \<Rightarrow> error + unit" where
  "validate_stages name' [] = Inr ()"
| "validate_stages name' ((stage_name, c) # rest) =
     (if cfg_truthy c ''skip'' then validate_stages name' rest
      else if cfg_truthy c ''terminal'' then validate_stages name' rest
      else if ''next'' \<notin> fst ` set c then Inl (ValueError (MustHaveNext name' stage_name))
      else validate_stages name' rest)"

definition validate :: "raw_flow \<Rightarrow> string \<Rightarrow> error + unit" where
  "validate raw name' =
     (let missing = REQUIRED_TOP_KEYS - raw_keys raw
      in if missing \<noteq> {} then Inl (ValueError (MissingRequiredKeys name' missing))
         else
           (let stages = (case r_stages raw of None \<Rightarrow> [] | Some s \<Rightarrow> s)
            in if stages = [] then Inl (ValueError (HasNoStages name'))
               else validate_stages name' stages))"

text \<open>
  \<^verbatim>\<open>_build_stage(name, cfg)\<close>: each field of the stage is read from the entry at the type
  the dataclass declares for it, with the default of \<^verbatim>\<open>cfg.get\<close> when the key is absent.
\<close>

definition build_stage :: "string \<Rightarrow> cfg \<Rightarrow> Stage" where
  "build_stage name' c =
     \<lparr>Stage.name = name',
      Stage.description = (case map_of c ''description'' of Some (YStr s) \<Rightarrow> s | _ \<Rightarrow> []),
      next = (case map_of c ''next'' of Some (YStr s) \<Rightarrow> Some s | _ \<Rightarrow> None),
      fail = (case map_of c ''fail'' of Some (YStr s) \<Rightarrow> Some s | _ \<Rightarrow> None),
      workers = (case map_of c ''workers'' of
                   Some (YList ws) \<Rightarrow> Some (WorkersList ws)
                 | Some (YMap d) \<Rightarrow> Some (WorkersDict d)
                 | _ \<Rightarrow> None),
      requires = (case map_of c ''requires'' of Some (YList rs) \<Rightarrow> rs | _ \<Rightarrow> []),
      terminal = cfg_truthy c ''terminal'',
      skip = cfg_truthy c ''skip''\<rparr>"

text \<open>
  \<^verbatim>\<open>load_flow(task_type, flows_dir)\<close>. The file of the flow \<^verbatim>\<open>base\<close> is \<^verbatim>\<open>_base.yaml\<close>.
  \<^verbatim>\<open>raw["name"]\<close> and \<^verbatim>\<open>raw["stages"]\<close> raise \<open>KeyError\<close> on a missing key.
\<close>

definition flow_file :: "string \<Rightarrow> string" where
  "flow_file task_type = (if task_type = ''base'' then ''_base'' else task_type)"

definition load_flow :: "nat \<Rightarrow> flows_dir \<Rightarrow> string \<Rightarrow> error + TaskFlow" where
  "load_flow depth flows_dir task_type =
     (case flows_dir (flow_file task_type) of
        None \<Rightarrow> Inl (FileNotFoundError (TaskFlowNotFound task_type))
      | Some raw_file \<Rightarrow>
          (case resolve_inheritance depth flows_dir raw_file of
             Inl e \<Rightarrow> Inl e
           | Inr raw \<Rightarrow>
               (case validate raw task_type of
                  Inl e \<Rightarrow> Inl e
                | Inr _ \<Rightarrow>
                    (case r_stages raw of
                       None \<Rightarrow> Inl (KeyError ''stages'')
                     | Some raw_stages \<Rightarrow>
                         (case r_name raw of
                            None \<Rightarrow> Inl (KeyError ''name'')
                          | Some flow_name \<Rightarrow>
                              Inr \<lparr>TaskFlow.name = flow_name,
                                   TaskFlow.description =
                                     (case r_description raw of None \<Rightarrow> [] | Some d \<Rightarrow> d),
                                   stages = map (\<lambda>(name, c). (name, build_stage name c)) raw_stages,
                                   dead_ends =
                                     (case r_dead_ends raw of None \<Rightarrow> [] | Some ds \<Rightarrow> ds)\<rparr>)))))"


section \<open>The task store (db.py)\<close>

text \<open>
  The rows of the tables \<^verbatim>\<open>tasks\<close> and \<^verbatim>\<open>transitions\<close>, without the columns filled by
  \<^verbatim>\<open>datetime('now')\<close> and without the row number of a transition, which is its position
  in the table. The store is the two tables that \<^verbatim>\<open>transition_task\<close> reads and writes,
  in insertion order, and the flows directory the store was opened with.
\<close>

record Task =
  id' :: string
  project_id :: string
  task_type :: string
  description :: string
  file_path :: "string option"
  status :: string
  class_required :: "string option"
  assigned_to :: "string option"

record TransitionRow =
  task_id :: string
  from_status :: string
  to_status :: string
  agent :: "string option"
  valid :: int

record TaskDB =
  tasks :: "Task list"
  transitions :: "TransitionRow list"
  db_flows_dir :: flows_dir

definition get_task :: "TaskDB \<Rightarrow> string \<Rightarrow> Task option" where
  "get_task db i = find (\<lambda>t. id' t = i) (tasks db)"

text \<open>
  \<^verbatim>\<open>transition_task(task_id, to_status, agent)\<close>. The result is the store after the call,
  the row that \<^verbatim>\<open>get_task\<close> returns, and whether \<^verbatim>\<open>warnings.warn\<close> was called. An
  exception of \<^verbatim>\<open>load_flow\<close> leaves the function before either statement is executed.
  The first argument is the stack depth left for the loader.
\<close>

definition transition_task ::
  "nat \<Rightarrow> TaskDB \<Rightarrow> string \<Rightarrow> string \<Rightarrow> string option \<Rightarrow> error + (TaskDB \<times> Task option \<times> bool)" where
  "transition_task depth db i to who =
     (case get_task db i of
        None \<Rightarrow> Inl (ValueError (TaskNotFound i))
      | Some task \<Rightarrow>
          (let from = status task
           in case load_flow depth (db_flows_dir db) (task_type task) of
                Inl e \<Rightarrow> Inl e
              | Inr flow \<Rightarrow>
                  (let valid_targets = valid_transitions flow from;
                       is_valid = (to \<in> valid_targets);
                       warned = (\<not> is_valid);
                       db = db\<lparr>tasks :=
                              map (\<lambda>t. if id' t = i
                                        then t\<lparr>status := to,
                                               assigned_to :=
                                                 (case who of Some a \<Rightarrow> Some a
                                                  | None \<Rightarrow> assigned_to t)\<rparr>
                                        else t)
                                (tasks db)\<rparr>;
                       db = db\<lparr>transitions :=
                              transitions db @
                                [\<lparr>task_id = i, from_status = from, to_status = to, agent = who,
                                  valid = (if is_valid then 1 else 0)\<rparr>]\<rparr>
                   in Inr (db, get_task db i, warned))))"


section \<open>Notions used to state the properties\<close>

text \<open>
  A stage name is a skip stage of a flow when the flow has a stage of that name marked
  \<^verbatim>\<open>skip\<close>; \<open>skip_edge\<close> is one hop of a skip chain, from a skip stage to its \<^verbatim>\<open>next\<close>.
\<close>

definition is_skip :: "TaskFlow \<Rightarrow> string \<Rightarrow> bool" where
  "is_skip flow n = (case map_of (stages flow) n of None \<Rightarrow> False | Some stage \<Rightarrow> skip stage)"

definition skip_edge :: "TaskFlow \<Rightarrow> string \<Rightarrow> string \<Rightarrow> bool" where
  "skip_edge flow a b =
     (case map_of (stages flow) a of
        None \<Rightarrow> False
      | Some stage \<Rightarrow> skip stage \<and> next stage = Some b)"

text \<open>
  The resolution path of a definition: the parent names that \<^verbatim>\<open>_resolve_inheritance\<close>
  loads one after the other, and the definition the last of them holds.
\<close>

inductive on_path :: "flows_dir \<Rightarrow> raw_flow \<Rightarrow> string list \<Rightarrow> raw_flow \<Rightarrow> bool"
  for dir :: flows_dir where
  start: "on_path dir raw [] raw"
| step: "r_inherits raw = Some p \<Longrightarrow> p \<noteq> [] \<Longrightarrow> dir p = Some parent \<Longrightarrow>
         on_path dir parent ps anc \<Longrightarrow> on_path dir raw (p # ps) anc"

text \<open>A definition at which the recursion stops: no parent to load, or a missing one.\<close>

definition chain_end :: "flows_dir \<Rightarrow> raw_flow \<Rightarrow> bool" where
  "chain_end dir raw =
     (case r_inherits raw of None \<Rightarrow> True | Some p \<Rightarrow> p = [] \<or> dir p = None)"

text \<open>The stage entries that \<^verbatim>\<open>_validate\<close> rejects.\<close>

definition needs_next :: "cfg \<Rightarrow> bool" where
  "needs_next c =
     (\<not> cfg_truthy c ''skip'' \<and> \<not> cfg_truthy c ''terminal'' \<and> ''next'' \<notin> fst ` set c)"

text \<open>What \<^verbatim>\<open>_merge_stages\<close> stores for a stage of the parent.\<close>

definition merged_entry :: "stages_dict \<Rightarrow> cfg \<Rightarrow> string \<Rightarrow> cfg" where
  "merged_entry ov base_cfg n =
     (case map_of ov n of Some over_cfg \<Rightarrow> dict_merge base_cfg over_cfg | None \<Rightarrow> base_cfg)"

definition is_ValueError :: "error + 'a \<Rightarrow> bool" where
  "is_ValueError r = (case r of Inl (ValueError m) \<Rightarrow> True | _ \<Rightarrow> False)"


section \<open>Example flows\<close>

text \<open>The defaults of the dataclass \<^verbatim>\<open>Stage\<close>.\<close>

definition Stage_defaults :: "string \<Rightarrow> Stage" where
  "Stage_defaults name' =
     \<lparr>Stage.name = name', Stage.description = [], next = None, fail = None, workers = None,
      requires = [], terminal = False, skip = False\<rparr>"

text \<open>
  Modelled from the spec: the definition files under \<^verbatim>\<open>task-flows/\<close> (\<^verbatim>\<open>_base.yaml\<close>,
  \<^verbatim>\<open>hotfix.yaml\<close>) are not among the sources. \<open>base\<close> is the flow that the specification's
  testable properties describe: the chain open, assigned, in_progress, fixed, verified,
  closed with closed terminal, the failure edge from fixed to assigned, the class-keyed
  workers of fixed, and the three dead ends. \<open>hotfix\<close> is \<open>base\<close> with fixed and verified
  marked \<^verbatim>\<open>skip\<close>.
\<close>

definition base :: TaskFlow where
  "base =
     \<lparr>TaskFlow.name = ''base'', TaskFlow.description = [],
      stages =
        [(''open'', (Stage_defaults ''open'')\<lparr>next := Some ''assigned''\<rparr>),
         (''assigned'', (Stage_defaults ''assigned'')\<lparr>next := Some ''in_progress''\<rparr>),
         (''in_progress'', (Stage_defaults ''in_progress'')\<lparr>next := Some ''fixed''\<rparr>),
         (''fixed'', (Stage_defaults ''fixed'')
            \<lparr>next := Some ''verified'', fail := Some ''assigned'',
             workers := Some (WorkersDict [(''coder'', [''oracle'', ''recon'']),
                                           (''default'', [''lead''])])\<rparr>),
         (''verified'', (Stage_defaults ''verified'')\<lparr>next := Some ''closed''\<rparr>),
         (''closed'', (Stage_defaults ''closed'')\<lparr>terminal := True\<rparr>)],
      dead_ends = [''abandoned'', ''stale'', ''obsolete'']\<rparr>"

definition hotfix :: TaskFlow where
  "hotfix =
     base\<lparr>TaskFlow.name := ''hotfix'',
          stages :=
            map (\<lambda>(n, stage). (n, if n = ''fixed'' \<or> n = ''verified''
                                   then stage\<lparr>skip := True\<rparr> else stage))
              (stages base)\<rparr>"


text \<open>
  Three small flows: one whose stage \<open>a\<close> declares the empty string as its failure target,
  one whose skip stages \<open>a\<close> and \<open>b\<close> name each other, and one whose stage \<open>review\<close>
  fails into the skip stage \<open>triage\<close>.
\<close>

definition blank_fail_flow :: TaskFlow where
  "blank_fail_flow =
     \<lparr>TaskFlow.name = ''blank'', TaskFlow.description = [],
      stages =
        [(''a'', (Stage_defaults ''a'')\<lparr>next := Some ''b'', fail := Some []\<rparr>),
         (''b'', (Stage_defaults ''b'')\<lparr>terminal := True\<rparr>)],
      dead_ends = []\<rparr>"

definition loop_flow :: TaskFlow where
  "loop_flow =
     \<lparr>TaskFlow.name = ''loop'', TaskFlow.description = [],
      stages =
        [(''start'', (Stage_defaults ''start'')\<lparr>next := Some ''a''\<rparr>),
         (''a'', (Stage_defaults ''a'')\<lparr>next := Some ''b'', skip := True\<rparr>),
         (''b'', (Stage_defaults ''b'')\<lparr>next := Some ''a'', skip := True\<rparr>)],
      dead_ends = []\<rparr>"

definition detour_flow :: TaskFlow where
  "detour_flow =
     \<lparr>TaskFlow.name = ''detour'', TaskFlow.description = [],
      stages =
        [(''assigned'', (Stage_defaults ''assigned'')\<lparr>next := Some ''review''\<rparr>),
         (''review'', (Stage_defaults ''review'')
            \<lparr>next := Some ''done'', fail := Some ''triage''\<rparr>),
         (''triage'', (Stage_defaults ''triage'')\<lparr>next := Some ''assigned'', skip := True\<rparr>),
         (''done'', (Stage_defaults ''done'')\<lparr>terminal := True\<rparr>)],
      dead_ends = [''abandoned'']\<rparr>"


section \<open>Example definitions and an example store\<close>

text \<open>
  Modelled from the spec: the definition files are not among the sources. \<open>base_raw\<close> and
  \<open>hotfix_raw\<close> are definitions that load to the flows \<open>base\<close> and \<open>hotfix\<close> above:
  \<open>hotfix_raw\<close> inherits the file \<^verbatim>\<open>_base.yaml\<close> and overrides only the field \<^verbatim>\<open>skip\<close> of
  fixed and verified. The other definitions are a flow whose \<^verbatim>\<open>stages\<close> is empty, the
  flow of the loader's test (a stage with a description and nothing else), a flow whose
  parent has no file, two flows that inherit each other, and a flow without \<^verbatim>\<open>name\<close>.
\<close>

definition base_raw :: raw_flow where
  "base_raw =
     \<lparr>r_name = Some ''base'', r_description = Some [],
      r_stages = Some
        [(''open'', [(''next'', YStr ''assigned'')]),
         (''assigned'', [(''next'', YStr ''in_progress'')]),
         (''in_progress'', [(''next'', YStr ''fixed'')]),
         (''fixed'', [(''next'', YStr ''verified''), (''fail'', YStr ''assigned''),
                      (''workers'', YMap [(''coder'', [''oracle'', ''recon'']),
                                          (''default'', [''lead''])])]),
         (''verified'', [(''next'', YStr ''closed'')]),
         (''closed'', [(''terminal'', YBool True)])],
      r_inherits = None,
      r_dead_ends = Some [''abandoned'', ''stale'', ''obsolete'']\<rparr>"

definition hotfix_raw :: raw_flow where
  "hotfix_raw =
     \<lparr>r_name = Some ''hotfix'', r_description = None,
      r_stages = Some [(''fixed'', [(''skip'', YBool True)]),
                       (''verified'', [(''skip'', YBool True)])],
      r_inherits = Some ''_base'',
      r_dead_ends = None\<rparr>"

definition hollow_raw :: raw_flow where
  "hollow_raw =
     \<lparr>r_name = Some ''hollow'', r_description = Some ''no stages'', r_stages = Some [],
      r_inherits = None, r_dead_ends = None\<rparr>"

definition broken_raw :: raw_flow where
  "broken_raw =
     \<lparr>r_name = Some ''broken'', r_description = Some ''bad'',
      r_stages = Some [(''open'', [(''description'', YStr ''no next'')])],
      r_inherits = None, r_dead_ends = None\<rparr>"

definition orphan_raw :: raw_flow where
  "orphan_raw =
     \<lparr>r_name = Some ''orphan'', r_description = None, r_stages = None,
      r_inherits = Some ''nobody'', r_dead_ends = None\<rparr>"

definition ping_raw :: raw_flow where
  "ping_raw =
     \<lparr>r_name = Some ''ping'', r_description = None, r_stages = None,
      r_inherits = Some ''pong'', r_dead_ends = None\<rparr>"

definition pong_raw :: raw_flow where
  "pong_raw =
     \<lparr>r_name = Some ''pong'', r_description = Some [],
      r_stages = Some [(''open'', [(''terminal'', YBool True)])],
      r_inherits = Some ''ping'', r_dead_ends = None\<rparr>"

definition nameless_raw :: raw_flow where
  "nameless_raw =
     \<lparr>r_name = None, r_description = Some ''no name'',
      r_stages = Some [(''open'', [(''terminal'', YBool True)])],
      r_inherits = None, r_dead_ends = None\<rparr>"

definition example_dir :: flows_dir where
  "example_dir =
     map_of [(''_base'', base_raw), (''hotfix'', hotfix_raw), (''hollow'', hollow_raw),
             (''broken'', broken_raw), (''orphan'', orphan_raw), (''ping'', ping_raw),
             (''pong'', pong_raw), (''nameless'', nameless_raw)]"

text \<open>A store with a task of the flow \<open>hotfix\<close> and a task whose flow has no file.\<close>

definition example_db :: TaskDB where
  "example_db =
     \<lparr>tasks =
        [\<lparr>id' = ''HOT-1'', project_id = ''proj'', task_type = ''hotfix'',
          Task.description = ''urgent fix'', file_path = None, status = ''open'',
          class_required = Some ''coder'', assigned_to = None\<rparr>,
         \<lparr>id' = ''GHOST-1'', project_id = ''proj'', task_type = ''ghost'',
          Task.description = ''no flow'', file_path = None, status = ''open'',
          class_required = None, assigned_to = None\<rparr>],
      transitions = [],
      db_flows_dir = example_dir\<rparr>"


section \<open>Properties of the router\<close>

lemmas example_flows = base_def hotfix_def Stage_defaults_def

lemmas example_raws = example_dir_def base_raw_def hotfix_raw_def hollow_raw_def broken_raw_def
  orphan_raw_def ping_raw_def pong_raw_def nameless_raw_def

lemma skip_edge_is_skip: "skip_edge flow a b \<Longrightarrow> is_skip flow a"
  by (auto simp: skip_edge_def is_skip_def split: option.splits)

lemma skip_edge_functional: "skip_edge flow a b \<Longrightarrow> skip_edge flow a c \<Longrightarrow> b = c"
  by (auto simp: skip_edge_def split: option.splits)

lemma resolve_skip_sound:
  "resolve_skip flow x seen = Some r \<Longrightarrow>
     \<exists>n. x = Some n \<and> (skip_edge flow)\<^sup>*\<^sup>* n r \<and> \<not> is_skip flow r"
proof (induction flow x seen rule: resolve_skip.induct)
  case (1 flow seen)
  then show ?case by simp
next
  case (2 flow stage_name seen)
  show ?case
  proof (cases "map_of (stages flow) stage_name")
    case None
    with "2.prems" show ?thesis
      by (auto simp: is_skip_def split: if_splits)
  next
    case (Some stage)
    show ?thesis
    proof (cases "skip stage")
      case False
      with Some "2.prems" show ?thesis
        by (auto simp: is_skip_def split: if_splits)
    next
      case True
      from "2.prems" have fresh: "stage_name \<notin> seen"
        by (auto split: if_splits)
      with Some True "2.prems"
      have rec: "resolve_skip flow (next stage) (insert stage_name seen) = Some r"
        by simp
      from "2.IH"[OF fresh Some True rec]
      obtain m where m: "next stage = Some m" "(skip_edge flow)\<^sup>*\<^sup>* m r" "\<not> is_skip flow r"
        by blast
      have "skip_edge flow stage_name m"
        using Some True m(1) by (simp add: skip_edge_def)
      then have "(skip_edge flow)\<^sup>*\<^sup>* stage_name r"
        using m(2) by (rule converse_rtranclp_into_rtranclp)
      with m(3) show ?thesis by blast
    qed
  qed
qed

lemma resolve_skip_fixed: "\<not> is_skip flow r \<Longrightarrow> resolve_skip flow (Some r) {} = Some r"
  by (auto simp: is_skip_def split: option.splits)

lemma on_cycle_stays:
  assumes cyc: "(skip_edge flow)\<^sup>+\<^sup>+ x x" and reach: "(skip_edge flow)\<^sup>*\<^sup>* x z"
  shows "(skip_edge flow)\<^sup>+\<^sup>+ z x"
  using reach
proof (induction rule: rtranclp_induct)
  case base
  show ?case by (rule cyc)
next
  case (step y z)
  from step.IH obtain w where w: "skip_edge flow y w" "(skip_edge flow)\<^sup>*\<^sup>* w x"
    by (auto elim: tranclpD dest: tranclpD)
  with step.hyps(2) have "w = z"
    using skip_edge_functional by blast
  with w(2) have "(skip_edge flow)\<^sup>*\<^sup>* z x" by simp
  then show ?case
    using cyc by (metis rtranclpD)
qed

lemma no_exit_from_cycle:
  assumes sx: "(skip_edge flow)\<^sup>*\<^sup>* s x" and cyc: "(skip_edge flow)\<^sup>+\<^sup>+ x x"
    and sr: "(skip_edge flow)\<^sup>*\<^sup>* s r"
  shows "is_skip flow r"
  using sx sr
proof (induction arbitrary: rule: converse_rtranclp_induct)
  case base
  then have "(skip_edge flow)\<^sup>+\<^sup>+ r x"
    using on_cycle_stays[OF cyc] by blast
  then show ?case
    by (auto dest!: tranclpD intro: skip_edge_is_skip)
next
  case (step y z)
  show ?case
  proof (cases "y = r")
    case True
    with step.hyps(1) show ?thesis by (auto intro: skip_edge_is_skip)
  next
    case False
    with step.prems obtain w where "skip_edge flow y w" "(skip_edge flow)\<^sup>*\<^sup>* w r"
      by (auto elim: converse_rtranclpE)
    with step.hyps(1) have "(skip_edge flow)\<^sup>*\<^sup>* z r"
      using skip_edge_functional by blast
    then show ?thesis by (rule step.IH)
  qed
qed

lemma resolve_skip_cycle:
  assumes "(skip_edge flow)\<^sup>*\<^sup>* s x" and "(skip_edge flow)\<^sup>+\<^sup>+ x x"
  shows "resolve_skip flow (Some s) {} = None"
proof (cases "resolve_skip flow (Some s) {}")
  case None
  then show ?thesis .
next
  case (Some r)
  then have "(skip_edge flow)\<^sup>*\<^sup>* s r" "\<not> is_skip flow r"
    using resolve_skip_sound by blast+
  with assms show ?thesis
    using no_exit_from_cycle by blast
qed

lemma next_status_unknown:
  "map_of (stages flow) current = None \<Longrightarrow> next_status flow current passed = None"
  by (simp add: next_status_def)

lemma next_status_terminal:
  "map_of (stages flow) current = Some stage \<Longrightarrow> terminal stage \<Longrightarrow>
     next_status flow current passed = None"
  by (simp add: next_status_def)

lemma next_status_target:
  "map_of (stages flow) current = Some stage \<Longrightarrow> \<not> terminal stage \<Longrightarrow>
     next_status flow current passed =
       resolve_skip flow (if passed then next stage else fail stage) {}"
  by (simp add: next_status_def del: resolve_skip.simps)

lemma resolve_skip_seen: "n \<in> seen \<Longrightarrow> resolve_skip flow (Some n) seen = None"
  by simp

lemma valid_transitions_unknown:
  "map_of (stages flow) current = None \<Longrightarrow> valid_transitions flow current = {}"
  by (simp add: valid_transitions_def)

lemma valid_transitions_terminal:
  "map_of (stages flow) current = Some stage \<Longrightarrow> terminal stage \<Longrightarrow>
     valid_transitions flow current = {}"
  by (simp add: valid_transitions_def)

lemma valid_transitions_open:
  "map_of (stages flow) current = Some stage \<Longrightarrow> \<not> terminal stage \<Longrightarrow>
     valid_transitions flow current =
       set (dead_ends flow)
       \<union> {r. resolve_skip flow (next stage) {} = Some r \<and> r \<noteq> []}
       \<union> {t. fail stage = Some t \<and> t \<noteq> []}"
  by (auto simp: valid_transitions_def truthy_str_def Let_def
        simp del: resolve_skip.simps split: option.splits)


subsection \<open>Next status\<close>

text \<open>
  C1. \<open>next_status\<close> returns none when the current status is not a stage of the flow or
  the stage is terminal. Otherwise it takes the stage's \<^verbatim>\<open>next\<close> when \<open>passed\<close> holds and
  its \<^verbatim>\<open>fail\<close> when it does not; it returns none when that field is absent and the
  skip-resolution of the target otherwise. On the flow \<open>base\<close>, in_progress passes to
  fixed, fixed fails to assigned, and closed has no next status.
\<close>

theorem next_status_spec:
  "(map_of (stages flow) current = None \<longrightarrow> next_status flow current passed = None)
   \<and> (\<forall>stage. map_of (stages flow) current = Some stage \<and> terminal stage
         \<longrightarrow> next_status flow current passed = None)
   \<and> (\<forall>stage. map_of (stages flow) current = Some stage \<and> \<not> terminal stage \<longrightarrow>
         (passed \<longrightarrow>
            (case next stage of
               None \<Rightarrow> next_status flow current passed = None
             | Some target \<Rightarrow>
                 next_status flow current passed = resolve_skip flow (Some target) {}))
       \<and> (\<not> passed \<longrightarrow>
            (case fail stage of
               None \<Rightarrow> next_status flow current passed = None
             | Some target \<Rightarrow>
                 next_status flow current passed = resolve_skip flow (Some target) {})))
   \<and> next_status base ''in_progress'' True = Some ''fixed''
   \<and> next_status base ''fixed'' False = Some ''assigned''
   \<and> next_status base ''closed'' True = None"
proof (intro conjI allI impI)
  show "next_status base ''in_progress'' True = Some ''fixed''"
    by (simp add: next_status_def example_flows)
  show "next_status base ''fixed'' False = Some ''assigned''"
    by (simp add: next_status_def example_flows)
  show "next_status base ''closed'' True = None"
    by (simp add: next_status_def example_flows)
qed (auto simp: next_status_unknown next_status_terminal next_status_target
       simp del: resolve_skip.simps(2) split: option.splits)

theorem next_status_spec_witness:
  "next_status hotfix ''in_progress'' True = resolve_skip hotfix (Some ''fixed'') {}
   \<and> next_status hotfix ''in_progress'' True = Some ''closed''"
  using next_status_spec [of hotfix "''in_progress''" True]
  by (simp add: example_flows)



subsection \<open>Valid transitions\<close>

text \<open>
  C2, as the code has it. \<open>valid_transitions\<close> is empty when the current status is not a
  stage of the flow or the stage is terminal. Otherwise it is the union of the dead ends,
  the skip-resolved \<^verbatim>\<open>next\<close> target when that resolution yields a non-empty name, and the
  raw \<^verbatim>\<open>fail\<close> target when it is present and not the empty string. On \<open>base\<close>, the valid
  transitions of assigned are in_progress and the three dead ends.
\<close>

theorem valid_transitions_spec:
  "(map_of (stages flow) current = None \<longrightarrow> valid_transitions flow current = {})
   \<and> (\<forall>stage. map_of (stages flow) current = Some stage \<and> terminal stage
         \<longrightarrow> valid_transitions flow current = {})
   \<and> (\<forall>stage. map_of (stages flow) current = Some stage \<and> \<not> terminal stage \<longrightarrow>
         valid_transitions flow current =
           set (dead_ends flow)
           \<union> {r. resolve_skip flow (next stage) {} = Some r \<and> r \<noteq> []}
           \<union> {t. fail stage = Some t \<and> t \<noteq> []})
   \<and> valid_transitions base ''assigned'' = {''in_progress'', ''abandoned'', ''stale'', ''obsolete''}"
proof (intro conjI allI impI)
  show "valid_transitions base ''assigned'' = {''in_progress'', ''abandoned'', ''stale'', ''obsolete''}"
    by (simp add: valid_transitions_def truthy_str_def example_flows)
qed (simp_all add: valid_transitions_unknown valid_transitions_terminal valid_transitions_open
       del: resolve_skip.simps)

theorem valid_transitions_spec_witness:
  "valid_transitions detour_flow ''review'' = {''abandoned'', ''done'', ''triage''}
   \<and> valid_transitions detour_flow ''done'' = {}
   \<and> valid_transitions detour_flow ''nowhere'' = {}"
  using valid_transitions_spec [of detour_flow "''review''"]
    valid_transitions_spec [of detour_flow "''done''"]
    valid_transitions_spec [of detour_flow "''nowhere''"]
  by (auto simp: detour_flow_def Stage_defaults_def)


text \<open>
  The truth test \<^verbatim>\<open>if stage.fail:\<close> drops a failure target that is the empty string: the
  stage \<open>a\<close> of \<open>blank_fail_flow\<close> is not terminal and declares the empty string as its
  failure target, which is not among its valid transitions.
\<close>

theorem valid_transitions_blank_fail:
  "map_of (stages blank_fail_flow) ''a''
     = Some ((Stage_defaults ''a'')\<lparr>next := Some ''b'', fail := Some []\<rparr>)
   \<and> \<not> terminal ((Stage_defaults ''a'')\<lparr>next := Some ''b'', fail := Some []\<rparr>)
   \<and> fail ((Stage_defaults ''a'')\<lparr>next := Some ''b'', fail := Some []\<rparr>) = Some []
   \<and> [] \<notin> valid_transitions blank_fail_flow ''a''
   \<and> valid_transitions blank_fail_flow ''a'' = {''b''}"
  by (simp add: valid_transitions_def truthy_str_def blank_fail_flow_def Stage_defaults_def)


subsection \<open>Eligible workers\<close>

text \<open>
  C5. \<open>workers_for\<close> returns none when the status is not a stage of the flow or the stage
  has no \<^verbatim>\<open>workers\<close>. A flat list is returned as it is, whatever the required class. From
  a class-keyed mapping it returns the entry of the required class if the mapping has
  that key, otherwise the entry under \<^verbatim>\<open>default\<close> if there is one, otherwise none. With
  the workers of fixed in \<open>base\<close>, a coder task gets oracle and recon, a pilot task gets
  lead, and a pilot task gets none when the mapping has no \<^verbatim>\<open>default\<close>.
\<close>

theorem workers_for_spec:
  "(map_of (stages flow) st = None \<longrightarrow> workers_for flow st cls = None)
   \<and> (\<forall>stage. map_of (stages flow) st = Some stage \<longrightarrow>
         (case workers stage of
            None \<Rightarrow> workers_for flow st cls = None
          | Some (WorkersList ws) \<Rightarrow> workers_for flow st cls = Some ws
          | Some (WorkersDict d) \<Rightarrow>
              workers_for flow st cls =
                (case map_of d cls of
                   Some ws \<Rightarrow> Some ws
                 | None \<Rightarrow> (case map_of d ''default'' of Some ws \<Rightarrow> Some ws | None \<Rightarrow> None))))
   \<and> workers_for base ''fixed'' ''coder'' = Some [''oracle'', ''recon'']
   \<and> workers_for base ''fixed'' ''pilot'' = Some [''lead'']
   \<and> workers_for
        (base\<lparr>stages :=
           [(''fixed'', (Stage_defaults ''fixed'')
               \<lparr>workers := Some (WorkersDict [(''coder'', [''oracle'', ''recon''])])\<rparr>)]\<rparr>)
        ''fixed'' ''pilot'' = None"
proof (intro conjI allI impI)
  show "map_of (stages flow) st = None \<Longrightarrow> workers_for flow st cls = None"
    by (simp add: workers_for_def)
  show "case workers stage of
          None \<Rightarrow> workers_for flow st cls = None
        | Some (WorkersList ws) \<Rightarrow> workers_for flow st cls = Some ws
        | Some (WorkersDict d) \<Rightarrow>
            workers_for flow st cls =
              (case map_of d cls of
                 Some ws \<Rightarrow> Some ws
               | None \<Rightarrow> (case map_of d ''default'' of Some ws \<Rightarrow> Some ws | None \<Rightarrow> None))"
    if "map_of (stages flow) st = Some stage" for stage
    using that
    by (auto simp: workers_for_def dom_map_of_conv_image_fst [symmetric] domIff
          split: option.splits Workers.splits)
qed (simp_all add: workers_for_def example_flows)

theorem workers_for_spec_witness:
  "workers_for base ''fixed'' ''coder'' = Some [''oracle'', ''recon'']
   \<and> workers_for base ''open'' ''coder'' = None
   \<and> workers_for base ''nowhere'' ''coder'' = None"
  using workers_for_spec [of base "''fixed''" "''coder''"]
    workers_for_spec [of base "''open''" "''coder''"]
    workers_for_spec [of base "''nowhere''" "''coder''"]
  by (simp add: example_flows)


subsection \<open>Skip resolution\<close>

text \<open>
  C6. For a stage \<open>s\<close> marked \<^verbatim>\<open>skip\<close>, skip resolution never returns \<open>s\<close>. It returns
  none, or a different name that is not a skip stage of the flow (a stage that is not
  skipped, or an unknown name) and is reached from \<open>s\<close> through the \<^verbatim>\<open>next\<close> references
  of skip stages. When the chain from \<open>s\<close> runs into a cycle the result is none, and a
  name that is already in the visited set resolves to none. The function is total: it
  has been shown to terminate on every flow.
\<close>

theorem resolve_skip_never_self:
  "is_skip flow s \<Longrightarrow>
     resolve_skip flow (Some s) {} \<noteq> Some s
     \<and> (resolve_skip flow (Some s) {} = None
        \<or> (\<exists>r. resolve_skip flow (Some s) {} = Some r \<and> r \<noteq> s \<and> \<not> is_skip flow r
               \<and> (skip_edge flow)\<^sup>+\<^sup>+ s r))
     \<and> (\<forall>x. (skip_edge flow)\<^sup>*\<^sup>* s x \<and> (skip_edge flow)\<^sup>+\<^sup>+ x x
           \<longrightarrow> resolve_skip flow (Some s) {} = None)
     \<and> (\<forall>n seen. n \<in> seen \<longrightarrow> resolve_skip flow (Some n) seen = None)"
proof (intro conjI allI impI)
  assume s: "is_skip flow s"
  show ns: "resolve_skip flow (Some s) {} \<noteq> Some s"
    using s resolve_skip_sound by blast
  show "resolve_skip flow (Some s) {} = None
        \<or> (\<exists>r. resolve_skip flow (Some s) {} = Some r \<and> r \<noteq> s \<and> \<not> is_skip flow r
               \<and> (skip_edge flow)\<^sup>+\<^sup>+ s r)"
  proof (cases "resolve_skip flow (Some s) {}")
    case None
    then show ?thesis by simp
  next
    case (Some r)
    then have r: "(skip_edge flow)\<^sup>*\<^sup>* s r" "\<not> is_skip flow r"
      using resolve_skip_sound by blast+
    with s have "r \<noteq> s" by blast
    with r(1) have "(skip_edge flow)\<^sup>+\<^sup>+ s r"
      by (metis rtranclpD)
    with Some r(2) \<open>r \<noteq> s\<close> show ?thesis by simp
  qed
next
  fix x
  assume "(skip_edge flow)\<^sup>*\<^sup>* s x \<and> (skip_edge flow)\<^sup>+\<^sup>+ x x"
  then show "resolve_skip flow (Some s) {} = None"
    using resolve_skip_cycle by blast
next
  fix n :: string and seen :: "string set"
  assume "n \<in> seen"
  then show "resolve_skip flow (Some n) seen = None" by simp
qed


theorem resolve_skip_never_self_witness:
  "is_skip hotfix ''fixed'' \<and> resolve_skip hotfix (Some ''fixed'') {} = Some ''closed''
   \<and> is_skip loop_flow ''a'' \<and> (skip_edge loop_flow)\<^sup>+\<^sup>+ ''a'' ''a''
   \<and> resolve_skip loop_flow (Some ''a'') {} = None"
proof -
  have hot: "is_skip hotfix ''fixed''"
    by (simp add: is_skip_def example_flows)
  have "skip_edge loop_flow ''a'' ''b''" and "skip_edge loop_flow ''b'' ''a''"
    by (simp_all add: skip_edge_def loop_flow_def Stage_defaults_def)
  then have cyc: "(skip_edge loop_flow)\<^sup>+\<^sup>+ ''a'' ''a''"
    by (meson tranclp.r_into_trancl tranclp.trancl_into_trancl)
  have sk: "is_skip loop_flow ''a''"
    by (simp add: is_skip_def loop_flow_def Stage_defaults_def)
  have "resolve_skip loop_flow (Some ''a'') {} = None"
    using resolve_skip_never_self [OF sk] cyc by blast
  moreover have "resolve_skip hotfix (Some ''fixed'') {} = Some ''closed''"
    using resolve_skip_never_self [OF hot] by (simp add: example_flows)
  ultimately show ?thesis
    using hot sk cyc by simp
qed

text \<open>
  C7. Skip resolution is idempotent: resolving the result of a resolution returns that
  result, for every flow and every name or none, whether or not the chain has a cycle.
\<close>

theorem resolve_skip_idempotent:
  "resolve_skip flow (resolve_skip flow x {}) {} = resolve_skip flow x {}"
proof (cases "resolve_skip flow x {}")
  case None
  then show ?thesis by simp
next
  case (Some r)
  then have "\<not> is_skip flow r"
    using resolve_skip_sound by blast
  with Some show ?thesis
    by (simp add: resolve_skip_fixed del: resolve_skip.simps)
qed

theorem resolve_skip_idempotent_witness:
  "resolve_skip hotfix (resolve_skip hotfix (Some ''fixed'') {}) {} = Some ''closed''
   \<and> resolve_skip loop_flow (resolve_skip loop_flow (Some ''a'') {}) {} = None"
  using resolve_skip_idempotent [of hotfix "Some ''fixed''"]
    resolve_skip_idempotent [of loop_flow "Some ''a''"]
  by (simp add: example_flows loop_flow_def)


subsection \<open>Failure routing against the valid transitions\<close>

text \<open>
  C10. When a stage that is not terminal names a skip stage \<open>t\<close> as its failure target and
  \<open>t\<close> skip-resolves to \<open>r\<close>, then \<open>r\<close> differs from \<open>t\<close>, \<open>next_status\<close> with
  \<open>passed = False\<close> returns \<open>r\<close>, and \<open>r\<close> is not among the valid transitions of the stage
  unless it is a dead end or the resolved \<^verbatim>\<open>next\<close> target; the set holds the raw target
  \<open>t\<close> instead (when \<open>t\<close> is not the empty string).
\<close>

theorem fail_target_outside_valid:
  "map_of (stages flow) current = Some stage \<Longrightarrow> \<not> terminal stage \<Longrightarrow>
   fail stage = Some t \<Longrightarrow> is_skip flow t \<Longrightarrow> resolve_skip flow (Some t) {} = Some r \<Longrightarrow>
     r \<noteq> t
     \<and> next_status flow current False = Some r
     \<and> (t \<noteq> [] \<longrightarrow> t \<in> valid_transitions flow current)
     \<and> (r \<notin> set (dead_ends flow) \<and> resolve_skip flow (next stage) {} \<noteq> Some r
          \<longrightarrow> r \<notin> valid_transitions flow current)"
proof (intro conjI impI)
  assume st: "map_of (stages flow) current = Some stage" "\<not> terminal stage"
    and f: "fail stage = Some t" and sk: "is_skip flow t"
    and res: "resolve_skip flow (Some t) {} = Some r"
  show rt: "r \<noteq> t"
    using res sk resolve_skip_sound by blast
  show "next_status flow current False = Some r"
    using st f res by (simp add: next_status_target del: resolve_skip.simps)
  show "t \<in> valid_transitions flow current" if "t \<noteq> []"
    using that st f by (simp add: valid_transitions_open del: resolve_skip.simps)
  show "r \<notin> valid_transitions flow current"
    if "r \<notin> set (dead_ends flow) \<and> resolve_skip flow (next stage) {} \<noteq> Some r"
    using that st f rt by (simp add: valid_transitions_open del: resolve_skip.simps)
qed

theorem fail_target_outside_valid_witness:
  "next_status detour_flow ''review'' False = Some ''assigned''
   \<and> ''assigned'' \<notin> valid_transitions detour_flow ''review''
   \<and> ''triage'' \<in> valid_transitions detour_flow ''review''"
  using fail_target_outside_valid [of detour_flow "''review''"
      "(Stage_defaults ''review'')\<lparr>next := Some ''done'', fail := Some ''triage''\<rparr>"
      "''triage''" "''assigned''"]
  by (simp add: detour_flow_def Stage_defaults_def is_skip_def)


section \<open>Properties of the loader\<close>

subsection \<open>Merging the stages of a parent and a child\<close>

lemma dict_merge_fold_lookup:
  "distinct (map fst b) \<Longrightarrow>
     map_of (fold (\<lambda>(k, v) d. AList.update k v d) b a) k =
       (case map_of b k of Some v \<Rightarrow> Some v | None \<Rightarrow> map_of a k)"
proof (induction b arbitrary: a)
  case Nil
  then show ?case by simp
next
  case (Cons kv b)
  obtain k' v' where kv: "kv = (k', v')" by (cases kv)
  from Cons.prems kv have d: "distinct (map fst b)" and fresh: "map_of b k' = None"
    by (auto simp: map_of_eq_None_iff)
  show ?case
    using Cons.IH [OF d, of "AList.update k' v' a"] fresh kv
    by (auto simp: update_conv' split: option.splits)
qed

lemma dict_merge_lookup:
  "distinct (map fst b) \<Longrightarrow>
     map_of (dict_merge a b) k = (case map_of b k of Some v \<Rightarrow> Some v | None \<Rightarrow> map_of a k)"
  unfolding dict_merge_def by (rule dict_merge_fold_lookup)

lemma first_loop_lookup:
  "distinct (map fst bs) \<Longrightarrow>
     map_of (fold (\<lambda>(name, base_cfg) merged.
                (case map_of ov name of
                   Some over_cfg \<Rightarrow> AList.update name (dict_merge base_cfg over_cfg) merged
                 | None \<Rightarrow> AList.update name base_cfg merged)) bs acc) n =
       (case map_of bs n of
          Some base_cfg \<Rightarrow> Some (merged_entry ov base_cfg n)
        | None \<Rightarrow> map_of acc n)"
proof (induction bs arbitrary: acc)
  case Nil
  then show ?case by simp
next
  case (Cons nb bs)
  obtain n' b where nb: "nb = (n', b)" by (cases nb)
  from Cons.prems nb have d: "distinct (map fst bs)" and fresh: "map_of bs n' = None"
    by (auto simp: map_of_eq_None_iff)
  show ?case
  proof (cases "map_of ov n'")
    case None
    then show ?thesis
      using Cons.IH [OF d, of "AList.update n' b acc"] fresh nb
      by (auto simp: update_conv' merged_entry_def split: option.splits)
  next
    case (Some o')
    then show ?thesis
      using Cons.IH [OF d, of "AList.update n' (dict_merge b o') acc"] fresh nb
      by (auto simp: update_conv' merged_entry_def split: option.splits)
  qed
qed

lemma second_loop_lookup:
  "map_of (fold (\<lambda>(name, c) merged.
             if name \<notin> fst ` set merged then AList.update name c merged else merged) ov acc) n =
     (case map_of acc n of Some x \<Rightarrow> Some x | None \<Rightarrow> map_of ov n)"
proof (induction ov arbitrary: acc)
  case Nil
  then show ?case by (simp split: option.splits)
next
  case (Cons nc ov)
  obtain n' c where nc: "nc = (n', c)" by (cases nc)
  show ?case
  proof (cases "n' \<in> fst ` set acc")
    case True
    then obtain x where "map_of acc n' = Some x"
      by (metis map_of_eq_None_iff not_Some_eq)
    with True nc show ?thesis
      using Cons.IH [of acc] by (auto split: option.splits)
  next
    case False
    then have "map_of acc n' = None"
      by (simp add: map_of_eq_None_iff)
    with False nc show ?thesis
      using Cons.IH [of "AList.update n' c acc"]
      by (auto simp: update_conv' split: option.splits)
  qed
qed

lemma merge_stages_lookup:
  assumes "distinct (map fst bs)"
  shows "map_of (merge_stages bs ovs) n =
     (case map_of bs n of
        Some base_cfg \<Rightarrow> Some (merged_entry (case ovs of None \<Rightarrow> [] | Some ov \<Rightarrow> ov) base_cfg n)
      | None \<Rightarrow> map_of (case ovs of None \<Rightarrow> [] | Some ov \<Rightarrow> ov) n)"
proof (cases ovs)
  case None
  then show ?thesis
    by (simp add: merge_stages_def merged_entry_def split: option.splits)
next
  case (Some ov)
  show ?thesis
  proof (cases "ov = []")
    case True
    with Some show ?thesis
      by (simp add: merge_stages_def merged_entry_def split: option.splits)
  next
    case False
    with Some show ?thesis
      using first_loop_lookup [OF assms, of ov "[]" n]
      by (simp add: merge_stages_def Let_def second_loop_lookup split: option.splits)
  qed
qed

text \<open>
  C4. The merge of inheritance is field by field within a stage. For a stage name that
  the parent and the child both have, every field that the child's entry sets has the
  child's value in the merged entry, and every field that the child's entry does not set
  keeps the parent's value; so a child that overrides only \<^verbatim>\<open>workers\<close> leaves \<^verbatim>\<open>next\<close>,
  \<^verbatim>\<open>fail\<close> and \<^verbatim>\<open>terminal\<close> of the built stage as the parent has them. A stage that only the
  parent has is kept as it is, a stage that only the child has is added, and no other
  stage appears. A child without stages leaves the parent's stages unchanged. This merge
  of the resolved parent's stages with the child's is what \<^verbatim>\<open>_resolve_inheritance\<close> stores
  under \<^verbatim>\<open>stages\<close>. The parent's stage names are distinct, as the keys of a dictionary are,
  and so are the field names of the child's entry.
\<close>

theorem merge_stages_field_level:
  "distinct (map fst parent_stages) \<Longrightarrow>
     (\<forall>n p c. map_of parent_stages n = Some p \<and> map_of child_stages n = Some c
                \<and> distinct (map fst c) \<longrightarrow>
        (\<exists>m. map_of (merge_stages parent_stages (Some child_stages)) n = Some m
           \<and> (\<forall>k v. map_of c k = Some v \<longrightarrow> map_of m k = Some v)
           \<and> (\<forall>k. map_of c k = None \<longrightarrow> map_of m k = map_of p k)
           \<and> (fst ` set c = {''workers''} \<longrightarrow>
                 next (build_stage n m) = next (build_stage n p)
               \<and> fail (build_stage n m) = fail (build_stage n p)
               \<and> terminal (build_stage n m) = terminal (build_stage n p))))
   \<and> (\<forall>n p. map_of parent_stages n = Some p \<and> map_of child_stages n = None \<longrightarrow>
          map_of (merge_stages parent_stages (Some child_stages)) n = Some p)
   \<and> (\<forall>n c. map_of parent_stages n = None \<and> map_of child_stages n = Some c \<longrightarrow>
          map_of (merge_stages parent_stages (Some child_stages)) n = Some c)
   \<and> (\<forall>n. map_of parent_stages n = None \<and> map_of child_stages n = None \<longrightarrow>
          map_of (merge_stages parent_stages (Some child_stages)) n = None)
   \<and> merge_stages parent_stages None = parent_stages
   \<and> (\<forall>depth dir raw pn pf parent_raw.
          r_inherits raw = Some pn \<and> pn \<noteq> [] \<and> dir pn = Some pf
          \<and> resolve_inheritance depth dir pf = Inr parent_raw \<longrightarrow>
          (\<exists>res. resolve_inheritance (Suc depth) dir raw = Inr res
             \<and> r_stages res =
                 Some (merge_stages (case r_stages parent_raw of None \<Rightarrow> [] | Some s \<Rightarrow> s)
                         (r_stages raw))))"
proof (intro conjI allI impI)
  assume d: "distinct (map fst parent_stages)"
  note look = merge_stages_lookup [OF d, of "Some child_stages"]
  show "\<exists>m. map_of (merge_stages parent_stages (Some child_stages)) n = Some m
           \<and> (\<forall>k v. map_of c k = Some v \<longrightarrow> map_of m k = Some v)
           \<and> (\<forall>k. map_of c k = None \<longrightarrow> map_of m k = map_of p k)
           \<and> (fst ` set c = {''workers''} \<longrightarrow>
                 next (build_stage n m) = next (build_stage n p)
               \<and> fail (build_stage n m) = fail (build_stage n p)
               \<and> terminal (build_stage n m) = terminal (build_stage n p))"
    if h: "map_of parent_stages n = Some p \<and> map_of child_stages n = Some c
           \<and> distinct (map fst c)" for n p c
  proof -
    from h have dc: "distinct (map fst c)" by simp
    have m: "map_of (merge_stages parent_stages (Some child_stages)) n = Some (dict_merge p c)"
      using h look [of n] by (simp add: merged_entry_def)
    have f: "map_of (dict_merge p c) k = (case map_of c k of Some v \<Rightarrow> Some v | None \<Rightarrow> map_of p k)"
      for k
      by (rule dict_merge_lookup [OF dc])
    have w: "map_of c k = None" if "fst ` set c = {''workers''}" "k \<noteq> ''workers''" for k
      using that by (simp add: map_of_eq_None_iff)
    have "next (build_stage n (dict_merge p c)) = next (build_stage n p)
          \<and> fail (build_stage n (dict_merge p c)) = fail (build_stage n p)
          \<and> terminal (build_stage n (dict_merge p c)) = terminal (build_stage n p)"
      if "fst ` set c = {''workers''}"
      using w [OF that] by (simp add: build_stage_def cfg_truthy_def f)
    with m f show ?thesis
      by simp
  qed
  show "map_of (merge_stages parent_stages (Some child_stages)) n = Some p"
    if "map_of parent_stages n = Some p \<and> map_of child_stages n = None" for n p
    using that look [of n] by (simp add: merged_entry_def)
  show "map_of (merge_stages parent_stages (Some child_stages)) n = Some c"
    if "map_of parent_stages n = None \<and> map_of child_stages n = Some c" for n c
    using that look [of n] by simp
  show "map_of (merge_stages parent_stages (Some child_stages)) n = None"
    if "map_of parent_stages n = None \<and> map_of child_stages n = None" for n
    using that look [of n] by simp
  show "merge_stages parent_stages None = parent_stages"
    by (simp add: merge_stages_def)
  show "\<exists>res. resolve_inheritance (Suc depth) dir raw = Inr res
             \<and> r_stages res =
                 Some (merge_stages (case r_stages parent_raw of None \<Rightarrow> [] | Some s \<Rightarrow> s)
                         (r_stages raw))"
    if "r_inherits raw = Some pn \<and> pn \<noteq> [] \<and> dir pn = Some pf
          \<and> resolve_inheritance depth dir pf = Inr parent_raw"
    for depth dir raw pn pf parent_raw
    using that by (simp add: Let_def)
qed

theorem merge_stages_field_level_witness:
  "distinct (map fst [(''fixed'', [(''next'', YStr ''verified''), (''fail'', YStr ''assigned''),
                                   (''workers'', YList [''oracle''])]),
                      (''closed'', [(''terminal'', YBool True)])])
   \<and> map_of (merge_stages
        [(''fixed'', [(''next'', YStr ''verified''), (''fail'', YStr ''assigned''),
                      (''workers'', YList [''oracle''])]),
         (''closed'', [(''terminal'', YBool True)])]
        (Some [(''fixed'', [(''workers'', YList [''lead''])]),
               (''triage'', [(''next'', YStr ''fixed'')])])) ''fixed''
      = Some [(''next'', YStr ''verified''), (''fail'', YStr ''assigned''),
              (''workers'', YList [''lead''])]
   \<and> map_of (merge_stages
        [(''fixed'', [(''next'', YStr ''verified''), (''fail'', YStr ''assigned''),
                      (''workers'', YList [''oracle''])]),
         (''closed'', [(''terminal'', YBool True)])]
        (Some [(''fixed'', [(''workers'', YList [''lead''])]),
               (''triage'', [(''next'', YStr ''fixed'')])])) ''closed''
      = Some [(''terminal'', YBool True)]
   \<and> map_of (merge_stages
        [(''fixed'', [(''next'', YStr ''verified''), (''fail'', YStr ''assigned''),
                      (''workers'', YList [''oracle''])]),
         (''closed'', [(''terminal'', YBool True)])]
        (Some [(''fixed'', [(''workers'', YList [''lead''])]),
               (''triage'', [(''next'', YStr ''fixed'')])])) ''triage''
      = Some [(''next'', YStr ''fixed'')]"
  using merge_stages_field_level
    [of "[(''fixed'', [(''next'', YStr ''verified''), (''fail'', YStr ''assigned''),
                       (''workers'', YList [''oracle''])]),
          (''closed'', [(''terminal'', YBool True)])]"
        "[(''fixed'', [(''workers'', YList [''lead''])]),
          (''triage'', [(''next'', YStr ''fixed'')])]"]
  by (simp add: merge_stages_def dict_merge_def)


subsection \<open>Resolution paths\<close>

inductive_cases on_path_NilE: "on_path dir raw [] anc"
inductive_cases on_path_ConsE: "on_path dir raw (p # ps) anc"

lemma on_path_append:
  "on_path dir raw ps a \<Longrightarrow> on_path dir a qs b \<Longrightarrow> on_path dir raw (ps @ qs) b"
  by (induction rule: on_path.induct) (auto intro: on_path.intros)

lemma on_path_split:
  "on_path dir raw (ps @ qs) b \<Longrightarrow> \<exists>a. on_path dir raw ps a \<and> on_path dir a qs b"
proof (induction ps arbitrary: raw)
  case Nil
  then show ?case by (auto intro: on_path.start)
next
  case (Cons p ps)
  from Cons.prems obtain parent where st: "r_inherits raw = Some p" "p \<noteq> []" "dir p = Some parent"
    and rest: "on_path dir parent (ps @ qs) b"
    by (auto elim: on_path_ConsE)
  from Cons.IH [OF rest] obtain a where "on_path dir parent ps a" "on_path dir a qs b"
    by blast
  with st show ?case
    by (auto intro: on_path.step)
qed

lemma on_path_last:
  "on_path dir raw (ps @ [p]) a \<Longrightarrow> dir p = Some a"
proof -
  assume "on_path dir raw (ps @ [p]) a"
  then obtain m where "on_path dir m [p] a"
    using on_path_split by blast
  then show ?thesis
    by (auto elim!: on_path_ConsE on_path_NilE)
qed

lemma ending_path_extends:
  "on_path dir raw ps a \<Longrightarrow> chain_end dir a \<Longrightarrow> on_path dir raw qs b \<Longrightarrow>
     \<exists>rs. ps = qs @ rs \<and> on_path dir b rs a"
proof (induction arbitrary: qs rule: on_path.induct)
  case (start raw)
  from start.prems show ?case
    by (cases qs) (auto elim!: on_path_NilE on_path_ConsE simp: chain_end_def intro: on_path.start)
next
  case (step raw p parent ps anc)
  show ?case
  proof (cases qs)
    case Nil
    with step.prems have "b = raw" by (auto elim: on_path_NilE)
    with Nil step.hyps show ?thesis
      by (auto intro: on_path.step)
  next
    case (Cons q qs')
    with step.prems step.hyps have "q = p" and "on_path dir parent qs' b"
      by (auto elim!: on_path_ConsE)
    with step.IH [OF step.prems(1), of qs'] Cons show ?thesis
      by auto
  qed
qed

lemma cyclic_path_never_ends:
  assumes path: "on_path dir raw ps anc" and rep: "\<not> distinct ps"
    and full: "on_path dir raw qs e" and stop: "chain_end dir e"
  shows False
proof -
  from rep obtain xs ys zs p where ps: "ps = xs @ [p] @ ys @ [p] @ zs"
    using not_distinct_decomp by blast
  from path ps have "on_path dir raw ((xs @ [p]) @ ((ys @ [p]) @ zs)) anc" by simp
  then obtain a where a1: "on_path dir raw (xs @ [p]) a" and a2: "on_path dir a ((ys @ [p]) @ zs) anc"
    using on_path_split by blast
  from a2 obtain a' where loop: "on_path dir a (ys @ [p]) a'"
    using on_path_split by blast
  from a1 have "dir p = Some a" by (rule on_path_last)
  moreover from loop have "dir p = Some a'" by (rule on_path_last)
  ultimately have "a' = a" by simp
  with loop have loop': "on_path dir a (ys @ [p]) a" by simp
  from ending_path_extends [OF full stop a1] obtain rs where rs: "on_path dir a rs e"
    by blast
  from ending_path_extends [OF rs stop loop'] obtain rs' where 1: "rs = (ys @ [p]) @ rs'"
    and 2: "on_path dir a rs' e"
    by blast
  from ending_path_extends [OF 2 stop rs] obtain rs'' where "rs' = rs @ rs''"
    by blast
  with 1 show False by simp
qed

lemma resolve_inheritance_returns:
  "resolve_inheritance depth dir raw \<noteq> Inl RecursionError \<Longrightarrow>
     \<exists>ps e. on_path dir raw ps e \<and> chain_end dir e \<and> length ps < depth"
proof (induction depth arbitrary: raw)
  case 0
  then show ?case by simp
next
  case (Suc depth)
  show ?case
  proof (cases "chain_end dir raw")
    case True
    then have "on_path dir raw [] raw \<and> chain_end dir raw \<and> length ([] :: string list) < Suc depth"
      by (simp add: on_path.start)
    then show ?thesis by blast
  next
    case False
    then obtain p parent where p: "r_inherits raw = Some p" "p \<noteq> []" "dir p = Some parent"
      by (auto simp: chain_end_def split: option.splits)
    with Suc.prems have "resolve_inheritance depth dir parent \<noteq> Inl RecursionError"
      by (auto split: sum.splits)
    from Suc.IH [OF this] obtain ps e where "on_path dir parent ps e" "chain_end dir e"
      "length ps < depth"
      by blast
    with p have "on_path dir raw (p # ps) e \<and> chain_end dir e \<and> length (p # ps) < Suc depth"
      by (auto intro: on_path.step)
    then show ?thesis by blast
  qed
qed

lemma resolve_inheritance_cycle:
  "on_path dir raw ps anc \<Longrightarrow> \<not> distinct ps \<Longrightarrow>
     resolve_inheritance depth dir raw = Inl RecursionError"
  using resolve_inheritance_returns cyclic_path_never_ends by blast

lemma resolve_inheritance_ends:
  "on_path dir raw ps e \<Longrightarrow> chain_end dir e \<Longrightarrow> length ps < depth \<Longrightarrow>
     resolve_inheritance depth dir raw \<noteq> Inl RecursionError"
proof (induction arbitrary: depth rule: on_path.induct)
  case (start raw)
  then obtain d where "depth = Suc d" by (cases depth) auto
  with start show ?case
    by (auto simp: chain_end_def split: option.splits)
next
  case (step raw p parent ps anc)
  then obtain d where d: "depth = Suc d" "length ps < d" by (cases depth) auto
  from step.IH [OF step.prems(1) d(2)] d(1) step.hyps show ?case
    by (auto simp: Let_def split: sum.splits)
qed

lemma resolve_inheritance_missing_parent:
  "on_path dir raw ps e \<Longrightarrow> r_inherits e = Some p \<Longrightarrow> p \<noteq> [] \<Longrightarrow> dir p = None \<Longrightarrow>
   length ps < depth \<Longrightarrow>
     resolve_inheritance depth dir raw = Inl (FileNotFoundError (ParentFlowNotFound p))"
proof (induction arbitrary: depth rule: on_path.induct)
  case (start raw)
  then obtain d where "depth = Suc d" by (cases depth) auto
  with start show ?case by simp
next
  case (step raw q parent ps anc)
  then obtain d where d: "depth = Suc d" "length ps < d" by (cases depth) auto
  from step.IH [OF step.prems(1-3) d(2)] d(1) step.hyps show ?case
    by simp
qed

lemma resolve_inheritance_errors:
  "resolve_inheritance depth dir raw = Inl e \<Longrightarrow>
     e = RecursionError \<or> (\<exists>p. e = FileNotFoundError (ParentFlowNotFound p) \<and> dir p = None)"
proof (induction depth arbitrary: raw)
  case 0
  then show ?case by simp
next
  case (Suc depth)
  then show ?case
    by (auto simp: Let_def split: option.splits if_splits sum.splits)
qed

lemma resolve_inheritance_more_depth:
  "resolve_inheritance depth dir raw = res \<Longrightarrow> res \<noteq> Inl RecursionError \<Longrightarrow>
     resolve_inheritance (depth + k) dir raw = res"
proof (induction depth arbitrary: raw res)
  case 0
  then show ?case by simp
next
  case (Suc depth)
  show ?case
  proof (cases "chain_end dir raw")
    case True
    with Suc.prems show ?thesis
      by (auto simp: chain_end_def split: option.splits)
  next
    case False
    then obtain p parent where p: "r_inherits raw = Some p" "p \<noteq> []" "dir p = Some parent"
      by (auto simp: chain_end_def split: option.splits)
    with Suc.prems have ne: "resolve_inheritance depth dir parent \<noteq> Inl RecursionError"
      by (auto split: sum.splits)
    from Suc.IH [OF refl ne]
    have "resolve_inheritance (depth + k) dir parent = resolve_inheritance depth dir parent" .
    with p Suc.prems show ?thesis by simp
  qed
qed

subsection \<open>Validation and the steps of a load\<close>

lemma validate_stages_find:
  "validate_stages n sts =
     (case find (\<lambda>(s, c). needs_next c) sts of
        None \<Rightarrow> Inr ()
      | Some (s, c) \<Rightarrow> Inl (ValueError (MustHaveNext n s)))"
  by (induction n sts rule: validate_stages.induct) (simp_all add: needs_next_def)

lemma validate_stages_errors:
  "validate_stages n sts = Inl e \<Longrightarrow> \<exists>m. e = ValueError m"
  by (induction n sts rule: validate_stages.induct) (auto split: if_splits)

lemma validate_errors: "validate raw n = Inl e \<Longrightarrow> \<exists>m. e = ValueError m"
  by (auto simp: validate_def Let_def split: if_splits dest: validate_stages_errors)

lemma validate_missing:
  "REQUIRED_TOP_KEYS - raw_keys raw \<noteq> {} \<Longrightarrow>
     validate raw n = Inl (ValueError (MissingRequiredKeys n (REQUIRED_TOP_KEYS - raw_keys raw)))"
  by (simp add: validate_def Let_def)

lemma required_present:
  "REQUIRED_TOP_KEYS - raw_keys raw = {} \<Longrightarrow>
     (\<exists>flow_name. r_name raw = Some flow_name) \<and> (\<exists>d. r_description raw = Some d)
     \<and> (\<exists>sts. r_stages raw = Some sts)"
  by (auto simp: REQUIRED_TOP_KEYS_def raw_keys_def split: if_splits)

lemma validate_present:
  "REQUIRED_TOP_KEYS - raw_keys raw = {} \<Longrightarrow> r_stages raw = Some sts \<Longrightarrow>
     validate raw n = (if sts = [] then Inl (ValueError (HasNoStages n)) else validate_stages n sts)"
  by (simp add: validate_def Let_def)

lemma load_flow_found:
  "dir (flow_file t) = Some src \<Longrightarrow> resolve_inheritance depth dir src = Inr raw \<Longrightarrow>
     load_flow depth dir t =
       (case validate raw t of
          Inl e \<Rightarrow> Inl e
        | Inr u \<Rightarrow>
            (case r_stages raw of
               None \<Rightarrow> Inl (KeyError ''stages'')
             | Some raw_stages \<Rightarrow>
                 (case r_name raw of
                    None \<Rightarrow> Inl (KeyError ''name'')
                  | Some flow_name \<Rightarrow>
                      Inr \<lparr>TaskFlow.name = flow_name,
                           TaskFlow.description =
                             (case r_description raw of None \<Rightarrow> [] | Some d \<Rightarrow> d),
                           stages = map (\<lambda>(n, c). (n, build_stage n c)) raw_stages,
                           dead_ends = (case r_dead_ends raw of None \<Rightarrow> [] | Some ds \<Rightarrow> ds)\<rparr>)))"
  by (simp add: load_flow_def)

lemma load_flow_resolution_error:
  "dir (flow_file t) = Some src \<Longrightarrow> resolve_inheritance depth dir src = Inl e \<Longrightarrow>
     load_flow depth dir t = Inl e"
  by (simp add: load_flow_def)

lemma load_flow_not_found_iff:
  "(load_flow depth dir t = Inl (FileNotFoundError (TaskFlowNotFound t)))
     = (dir (flow_file t) = None)"
proof
  assume "dir (flow_file t) = None"
  then show "load_flow depth dir t = Inl (FileNotFoundError (TaskFlowNotFound t))"
    by (simp add: load_flow_def)
next
  assume nf: "load_flow depth dir t = Inl (FileNotFoundError (TaskFlowNotFound t))"
  show "dir (flow_file t) = None"
  proof (rule ccontr)
    assume "dir (flow_file t) \<noteq> None"
    then obtain src where src: "dir (flow_file t) = Some src" by blast
    show False
    proof (cases "resolve_inheritance depth dir src")
      case (Inl e)
      with src nf have "e = FileNotFoundError (TaskFlowNotFound t)"
        by (simp add: load_flow_resolution_error)
      with Inl show False
        using resolve_inheritance_errors by blast
    next
      case (Inr raw)
      from nf show False
        unfolding load_flow_found [OF src Inr]
        by (auto split: sum.splits option.splits dest: validate_errors)
    qed
  qed
qed

subsection \<open>Cyclic inheritance\<close>

lemma ping_pong_path: "on_path example_dir ping_raw [''pong'', ''ping'', ''pong''] pong_raw"
proof -
  have 1: "on_path example_dir pong_raw [] pong_raw"
    by (rule on_path.start)
  have 2: "on_path example_dir ping_raw [''pong''] pong_raw"
    by (rule on_path.step [OF _ _ _ 1]) (simp_all add: example_raws)
  have 3: "on_path example_dir pong_raw [''ping'', ''pong''] pong_raw"
    by (rule on_path.step [OF _ _ _ 2]) (simp_all add: example_raws)
  show ?thesis
    by (rule on_path.step [OF _ _ _ 3]) (simp_all add: example_raws)
qed

lemma hotfix_path: "on_path example_dir hotfix_raw [''_base''] base_raw"
  by (rule on_path.step [OF _ _ _ on_path.start]) (simp_all add: example_raws)

text \<open>
  C3, as the code has it. \<^verbatim>\<open>_resolve_inheritance\<close> has no cycle check. When a name occurs
  twice on the resolution path of a definition, resolving it never returns a merged
  definition and never raises a validation error: whatever stack depth is left, the
  recursion uses it up and the call (and the load of a flow whose file holds that
  definition) ends in \<open>RecursionError\<close>. Resolution stays clear of \<open>RecursionError\<close> exactly
  when the resolution path ends, at a definition without \<^verbatim>\<open>inherits\<close> or with a parent that
  has no file, within the depth that is left; a path that ends has no name twice.
\<close>

theorem inheritance_cycle_outcome:
  "(on_path dir raw ps anc \<and> \<not> distinct ps \<longrightarrow>
       resolve_inheritance depth dir raw = Inl RecursionError
     \<and> (\<forall>t. dir (flow_file t) = Some raw \<longrightarrow> load_flow depth dir t = Inl RecursionError))
   \<and> (on_path dir raw ps anc \<and> chain_end dir anc \<and> length ps < depth \<longrightarrow>
       resolve_inheritance depth dir raw \<noteq> Inl RecursionError \<and> distinct ps)
   \<and> ((resolve_inheritance depth dir raw \<noteq> Inl RecursionError)
        = (\<exists>qs e. on_path dir raw qs e \<and> chain_end dir e \<and> length qs < depth))"
proof (intro conjI allI impI)
  show "(resolve_inheritance depth dir raw \<noteq> Inl RecursionError)
        = (\<exists>qs e. on_path dir raw qs e \<and> chain_end dir e \<and> length qs < depth)"
    using resolve_inheritance_returns resolve_inheritance_ends by blast
next
  assume "on_path dir raw ps anc \<and> \<not> distinct ps"
  then show r: "resolve_inheritance depth dir raw = Inl RecursionError"
    using resolve_inheritance_cycle by blast
  show "load_flow depth dir t = Inl RecursionError" if "dir (flow_file t) = Some raw" for t
    using that r by (simp add: load_flow_resolution_error)
next
  assume h: "on_path dir raw ps anc \<and> chain_end dir anc \<and> length ps < depth"
  then show "resolve_inheritance depth dir raw \<noteq> Inl RecursionError"
    using resolve_inheritance_ends by blast
  show "distinct ps"
    using h cyclic_path_never_ends by blast
qed

theorem inheritance_cycle_outcome_witness:
  "on_path example_dir ping_raw [''pong'', ''ping'', ''pong''] pong_raw
   \<and> \<not> distinct [''pong'', ''ping'', ''pong'']
   \<and> resolve_inheritance 1000 example_dir ping_raw = Inl RecursionError
   \<and> on_path example_dir hotfix_raw [''_base''] base_raw
   \<and> chain_end example_dir base_raw
   \<and> resolve_inheritance 1000 example_dir hotfix_raw \<noteq> Inl RecursionError
   \<and> resolve_inheritance (Suc (Suc 0)) example_dir hotfix_raw \<noteq> Inl RecursionError
   \<and> resolve_inheritance (Suc 0) example_dir hotfix_raw = Inl RecursionError"
proof -
  have nd: "\<not> distinct [''pong'', ''ping'', ''pong'']" by simp
  have ce: "chain_end example_dir base_raw"
    by (simp add: chain_end_def base_raw_def)
  have "resolve_inheritance 1000 example_dir ping_raw = Inl RecursionError"
    using inheritance_cycle_outcome
      [of example_dir ping_raw "[''pong'', ''ping'', ''pong'']" pong_raw 1000]
      ping_pong_path nd
    by blast
  moreover have "resolve_inheritance 1000 example_dir hotfix_raw \<noteq> Inl RecursionError"
    using inheritance_cycle_outcome [of example_dir hotfix_raw "[''_base'']" base_raw 1000]
      hotfix_path ce
    by simp
  moreover have "resolve_inheritance (Suc (Suc 0)) example_dir hotfix_raw \<noteq> Inl RecursionError"
    using inheritance_cycle_outcome
      [of example_dir hotfix_raw "[''_base'']" base_raw "Suc (Suc 0)"] hotfix_path ce
    by simp
  moreover have "resolve_inheritance (Suc 0) example_dir hotfix_raw = Inl RecursionError"
  proof -
    have open_end: "\<not> chain_end example_dir hotfix_raw"
      by (simp add: chain_end_def example_raws)
    have "\<not> (\<exists>qs e. on_path example_dir hotfix_raw qs e \<and> chain_end example_dir e
                 \<and> length qs < Suc 0)"
    proof
      assume "\<exists>qs e. on_path example_dir hotfix_raw qs e \<and> chain_end example_dir e
                 \<and> length qs < Suc 0"
      then obtain e where "on_path example_dir hotfix_raw [] e" "chain_end example_dir e"
        by auto
      then have "chain_end example_dir hotfix_raw"
        by (auto elim: on_path_NilE)
      with open_end show False by simp
    qed
    then show ?thesis
      using inheritance_cycle_outcome [of example_dir hotfix_raw "[]" hotfix_raw "Suc 0"]
      by blast
  qed
  ultimately show ?thesis
    using ping_pong_path hotfix_path nd ce by simp
qed

text \<open>
  The flows \<open>ping\<close> and \<open>pong\<close> inherit each other. Loading \<open>ping\<close> with a stack depth of
  1000 ends in \<open>RecursionError\<close>, which is not a validation error.
\<close>

theorem cyclic_inherits_exhausts_stack:
  "example_dir (flow_file ''ping'') = Some ping_raw \<and> r_inherits ping_raw = Some ''pong''
   \<and> example_dir ''pong'' = Some pong_raw \<and> r_inherits pong_raw = Some ''ping''
   \<and> load_flow 1000 example_dir ''ping'' = Inl RecursionError
   \<and> \<not> is_ValueError (load_flow 1000 example_dir ''ping'')"
proof -
  have "resolve_inheritance 1000 example_dir ping_raw = Inl RecursionError"
    by (rule resolve_inheritance_cycle [OF ping_pong_path]) simp
  then have "load_flow 1000 example_dir ''ping'' = Inl RecursionError"
    by (simp add: load_flow_def flow_file_def example_dir_def)
  then show ?thesis
    by (simp add: is_ValueError_def flow_file_def example_raws)
qed


subsection \<open>The outcomes of a load\<close>

lemma resolve_at_1000:
  "resolve_inheritance (Suc (Suc 0)) dir raw = res \<Longrightarrow> res \<noteq> Inl RecursionError \<Longrightarrow>
     resolve_inheritance 1000 dir raw = res"
  using resolve_inheritance_more_depth [of "Suc (Suc 0)" dir raw res 998] by simp

lemma hotfix_resolves:
  "resolve_inheritance 1000 example_dir hotfix_raw =
     Inr \<lparr>r_name = Some ''hotfix'', r_description = Some [],
          r_stages = Some
            [(''open'', [(''next'', YStr ''assigned'')]),
             (''assigned'', [(''next'', YStr ''in_progress'')]),
             (''in_progress'', [(''next'', YStr ''fixed'')]),
             (''fixed'', [(''next'', YStr ''verified''), (''fail'', YStr ''assigned''),
                          (''workers'', YMap [(''coder'', [''oracle'', ''recon'']),
                                              (''default'', [''lead''])]),
                          (''skip'', YBool True)]),
             (''verified'', [(''next'', YStr ''closed''), (''skip'', YBool True)]),
             (''closed'', [(''terminal'', YBool True)])],
          r_inherits = None,
          r_dead_ends = Some [''abandoned'', ''stale'', ''obsolete'']\<rparr>"
  by (rule resolve_at_1000)
    (simp_all add: example_raws merge_stages_def dict_merge_def override_def)

lemma load_hotfix: "load_flow 1000 example_dir ''hotfix'' = Inr hotfix"
proof -
  have src: "example_dir (flow_file ''hotfix'') = Some hotfix_raw"
    by (simp add: flow_file_def example_dir_def)
  show ?thesis
    by (simp add: load_flow_def src hotfix_resolves validate_def REQUIRED_TOP_KEYS_def
        raw_keys_def cfg_truthy_def build_stage_def example_flows)
qed

text \<open>
  C8, as the code has it. \<open>load_flow\<close> fails with the error that names the flow as not
  found exactly when the flow has no definition file. It fails with the error that names
  the parent as not found when a definition on the resolution path declares a parent
  that has no file (and the stack is deep enough to reach it). When resolution returns a
  merged definition, the load fails with a validation error that lists the missing keys
  if one of \<^verbatim>\<open>name\<close>, \<^verbatim>\<open>description\<close>, \<^verbatim>\<open>stages\<close> is absent; otherwise with a validation error
  that names the flow if the merged \<^verbatim>\<open>stages\<close> is empty; otherwise with a validation error
  that names the flow and the first stage, in the order of the definition, that is
  neither skipped nor terminal and does not declare \<^verbatim>\<open>next\<close>; and otherwise it returns the
  flow built from the merged definition.
\<close>

theorem load_flow_outcomes:
  "((load_flow depth dir t = Inl (FileNotFoundError (TaskFlowNotFound t)))
      = (dir (flow_file t) = None))
   \<and> (\<forall>src ps anc p.
         dir (flow_file t) = Some src \<and> on_path dir src ps anc \<and> r_inherits anc = Some p
         \<and> p \<noteq> [] \<and> dir p = None \<and> length ps < depth \<longrightarrow>
         load_flow depth dir t = Inl (FileNotFoundError (ParentFlowNotFound p)))
   \<and> (\<forall>src raw.
         dir (flow_file t) = Some src \<and> resolve_inheritance depth dir src = Inr raw \<longrightarrow>
         (if REQUIRED_TOP_KEYS - raw_keys raw \<noteq> {}
          then load_flow depth dir t =
                 Inl (ValueError (MissingRequiredKeys t (REQUIRED_TOP_KEYS - raw_keys raw)))
          else \<exists>sts flow_name.
                 r_stages raw = Some sts \<and> r_name raw = Some flow_name
                 \<and> (if sts = [] then load_flow depth dir t = Inl (ValueError (HasNoStages t))
                    else (case find (\<lambda>(s, c). needs_next c) sts of
                            Some (s, c) \<Rightarrow>
                              load_flow depth dir t = Inl (ValueError (MustHaveNext t s))
                          | None \<Rightarrow>
                              (\<exists>flow. load_flow depth dir t = Inr flow
                                 \<and> TaskFlow.name flow = flow_name
                                 \<and> TaskFlow.description flow =
                                     (case r_description raw of None \<Rightarrow> [] | Some d \<Rightarrow> d)
                                 \<and> stages flow = map (\<lambda>(n, c). (n, build_stage n c)) sts
                                 \<and> dead_ends flow =
                                     (case r_dead_ends raw of None \<Rightarrow> [] | Some ds \<Rightarrow> ds))))))"
proof (intro conjI allI impI)
  show "(load_flow depth dir t = Inl (FileNotFoundError (TaskFlowNotFound t)))
      = (dir (flow_file t) = None)"
    by (rule load_flow_not_found_iff)
next
  fix src ps anc p
  assume h: "dir (flow_file t) = Some src \<and> on_path dir src ps anc \<and> r_inherits anc = Some p
         \<and> p \<noteq> [] \<and> dir p = None \<and> length ps < depth"
  then have "resolve_inheritance depth dir src = Inl (FileNotFoundError (ParentFlowNotFound p))"
    using resolve_inheritance_missing_parent by blast
  with h show "load_flow depth dir t = Inl (FileNotFoundError (ParentFlowNotFound p))"
    by (simp add: load_flow_resolution_error)
next
  fix src raw
  assume h: "dir (flow_file t) = Some src \<and> resolve_inheritance depth dir src = Inr raw"
  then have lf: "load_flow depth dir t =
       (case validate raw t of
          Inl e \<Rightarrow> Inl e
        | Inr u \<Rightarrow>
            (case r_stages raw of
               None \<Rightarrow> Inl (KeyError ''stages'')
             | Some raw_stages \<Rightarrow>
                 (case r_name raw of
                    None \<Rightarrow> Inl (KeyError ''name'')
                  | Some flow_name \<Rightarrow>
                      Inr \<lparr>TaskFlow.name = flow_name,
                           TaskFlow.description =
                             (case r_description raw of None \<Rightarrow> [] | Some d \<Rightarrow> d),
                           stages = map (\<lambda>(n, c). (n, build_stage n c)) raw_stages,
                           dead_ends = (case r_dead_ends raw of None \<Rightarrow> [] | Some ds \<Rightarrow> ds)\<rparr>)))"
    using load_flow_found by blast
  show "if REQUIRED_TOP_KEYS - raw_keys raw \<noteq> {}
          then load_flow depth dir t =
                 Inl (ValueError (MissingRequiredKeys t (REQUIRED_TOP_KEYS - raw_keys raw)))
          else \<exists>sts flow_name.
                 r_stages raw = Some sts \<and> r_name raw = Some flow_name
                 \<and> (if sts = [] then load_flow depth dir t = Inl (ValueError (HasNoStages t))
                    else (case find (\<lambda>(s, c). needs_next c) sts of
                            Some (s, c) \<Rightarrow>
                              load_flow depth dir t = Inl (ValueError (MustHaveNext t s))
                          | None \<Rightarrow>
                              (\<exists>flow. load_flow depth dir t = Inr flow
                                 \<and> TaskFlow.name flow = flow_name
                                 \<and> TaskFlow.description flow =
                                     (case r_description raw of None \<Rightarrow> [] | Some d \<Rightarrow> d)
                                 \<and> stages flow = map (\<lambda>(n, c). (n, build_stage n c)) sts
                                 \<and> dead_ends flow =
                                     (case r_dead_ends raw of None \<Rightarrow> [] | Some ds \<Rightarrow> ds))))"
  proof (cases "REQUIRED_TOP_KEYS - raw_keys raw = {}")
    case False
    then show ?thesis
      by (simp add: lf validate_missing)
  next
    case True
    from required_present [OF True] obtain sts flow_name where
      p: "r_stages raw = Some sts" "r_name raw = Some flow_name"
      by blast
    have v: "validate raw t =
        (if sts = [] then Inl (ValueError (HasNoStages t)) else validate_stages t sts)"
      by (rule validate_present [OF True p(1)])
    show ?thesis
      using True p
      by (simp add: lf v validate_stages_find split: option.splits prod.splits)
  qed
qed

theorem load_flow_outcomes_witness:
  "load_flow 1000 example_dir ''ghost'' = Inl (FileNotFoundError (TaskFlowNotFound ''ghost''))
   \<and> load_flow 1000 example_dir ''orphan'' = Inl (FileNotFoundError (ParentFlowNotFound ''nobody''))
   \<and> load_flow 1000 example_dir ''nameless''
        = Inl (ValueError (MissingRequiredKeys ''nameless'' {''name''}))
   \<and> load_flow 1000 example_dir ''hollow'' = Inl (ValueError (HasNoStages ''hollow''))
   \<and> load_flow 1000 example_dir ''broken'' = Inl (ValueError (MustHaveNext ''broken'' ''open''))
   \<and> load_flow 1000 example_dir ''hotfix'' = Inr hotfix"
proof (intro conjI)
  have "example_dir (flow_file ''ghost'') = None"
    by (simp add: flow_file_def example_dir_def)
  then show "load_flow 1000 example_dir ''ghost''
      = Inl (FileNotFoundError (TaskFlowNotFound ''ghost''))"
    using load_flow_outcomes [of 1000 example_dir "''ghost''"] by simp
next
  have "example_dir (flow_file ''orphan'') = Some orphan_raw \<and>
        on_path example_dir orphan_raw [] orphan_raw \<and> r_inherits orphan_raw = Some ''nobody''
        \<and> ''nobody'' \<noteq> [] \<and> example_dir ''nobody'' = None \<and> length ([] :: string list) < 1000"
    by (simp add: flow_file_def example_dir_def orphan_raw_def on_path.start)
  then show "load_flow 1000 example_dir ''orphan''
      = Inl (FileNotFoundError (ParentFlowNotFound ''nobody''))"
    using load_flow_outcomes [of 1000 example_dir "''orphan''"] by blast
next
  have "example_dir (flow_file ''nameless'') = Some nameless_raw"
    by (simp add: flow_file_def example_dir_def)
  moreover have "resolve_inheritance 1000 example_dir nameless_raw = Inr nameless_raw"
    by (rule resolve_at_1000) (simp_all add: nameless_raw_def)
  moreover have "REQUIRED_TOP_KEYS - raw_keys nameless_raw = {''name''}"
    by (auto simp: REQUIRED_TOP_KEYS_def raw_keys_def nameless_raw_def)
  ultimately show "load_flow 1000 example_dir ''nameless''
        = Inl (ValueError (MissingRequiredKeys ''nameless'' {''name''}))"
    using load_flow_outcomes [of 1000 example_dir "''nameless''", THEN conjunct2, THEN conjunct2,
        rule_format, of nameless_raw nameless_raw]
    by simp
next
  have "example_dir (flow_file ''hollow'') = Some hollow_raw"
    by (simp add: flow_file_def example_dir_def)
  moreover have "resolve_inheritance 1000 example_dir hollow_raw = Inr hollow_raw"
    by (rule resolve_at_1000) (simp_all add: hollow_raw_def)
  moreover have "REQUIRED_TOP_KEYS - raw_keys hollow_raw = {}" "r_stages hollow_raw = Some []"
    by (auto simp: REQUIRED_TOP_KEYS_def raw_keys_def hollow_raw_def)
  ultimately show "load_flow 1000 example_dir ''hollow'' = Inl (ValueError (HasNoStages ''hollow''))"
    using load_flow_outcomes [of 1000 example_dir "''hollow''", THEN conjunct2, THEN conjunct2,
        rule_format, of hollow_raw hollow_raw]
    by simp
next
  have "example_dir (flow_file ''broken'') = Some broken_raw"
    by (simp add: flow_file_def example_dir_def)
  moreover have "resolve_inheritance 1000 example_dir broken_raw = Inr broken_raw"
    by (rule resolve_at_1000) (simp_all add: broken_raw_def)
  moreover have "REQUIRED_TOP_KEYS - raw_keys broken_raw = {}"
    "r_stages broken_raw = Some [(''open'', [(''description'', YStr ''no next'')])]"
    by (auto simp: REQUIRED_TOP_KEYS_def raw_keys_def broken_raw_def)
  ultimately show "load_flow 1000 example_dir ''broken''
      = Inl (ValueError (MustHaveNext ''broken'' ''open''))"
    using load_flow_outcomes [of 1000 example_dir "''broken''", THEN conjunct2, THEN conjunct2,
        rule_format, of broken_raw broken_raw]
    by (simp add: needs_next_def cfg_truthy_def)
next
  have src: "example_dir (flow_file ''hotfix'') = Some hotfix_raw"
    by (simp add: flow_file_def example_dir_def)
  show "load_flow 1000 example_dir ''hotfix'' = Inr hotfix"
    using load_flow_outcomes [of 1000 example_dir "''hotfix''", THEN conjunct2, THEN conjunct2,
        rule_format, OF conjI, OF src hotfix_resolves]
    by (auto simp: REQUIRED_TOP_KEYS_def raw_keys_def needs_next_def cfg_truthy_def
        build_stage_def example_flows)
qed

text \<open>
  The definition \<open>hollow\<close> has a file, no parent, the three required keys, and no stage
  at all, so no stage without \<^verbatim>\<open>next\<close>; loading it does not return a flow.
\<close>

theorem load_flow_empty_stages:
  "example_dir (flow_file ''hollow'') = Some hollow_raw \<and> r_inherits hollow_raw = None
   \<and> REQUIRED_TOP_KEYS - raw_keys hollow_raw = {} \<and> r_stages hollow_raw = Some []
   \<and> load_flow 1000 example_dir ''hollow'' = Inl (ValueError (HasNoStages ''hollow''))"
proof -
  have "resolve_inheritance 1000 example_dir hollow_raw = Inr hollow_raw"
    by (rule resolve_at_1000) (simp_all add: hollow_raw_def)
  moreover have "example_dir (flow_file ''hollow'') = Some hollow_raw"
    by (simp add: flow_file_def example_dir_def)
  ultimately have "load_flow 1000 example_dir ''hollow''
      = Inl (ValueError (HasNoStages ''hollow''))"
    by (simp add: load_flow_def validate_def REQUIRED_TOP_KEYS_def raw_keys_def hollow_raw_def)
  then show ?thesis
    by (simp add: flow_file_def example_dir_def REQUIRED_TOP_KEYS_def raw_keys_def hollow_raw_def)
qed


section \<open>Properties of the task store\<close>

lemma find_after_update:
  "(\<And>t. id' (f t) = id' t) \<Longrightarrow>
     find (\<lambda>t. id' t = i) (map (\<lambda>t. if id' t = i then f t else t) ts)
       = map_option f (find (\<lambda>t. id' t = i) ts)"
  by (induction ts) auto

lemma transition_task_loaded:
  assumes task: "get_task db i = Some task"
    and flow: "load_flow depth (db_flows_dir db) (task_type task) = Inr flow"
  shows "transition_task depth db i to who =
     Inr (db\<lparr>tasks :=
               map (\<lambda>t. if id' t = i
                         then t\<lparr>status := to,
                                assigned_to :=
                                  (case who of Some a \<Rightarrow> Some a | None \<Rightarrow> assigned_to t)\<rparr>
                         else t)
                 (tasks db),
             transitions :=
               transitions db @
                 [\<lparr>task_id = i, from_status = status task, to_status = to, agent = who,
                   valid = (if to \<in> valid_transitions flow (status task) then 1 else 0)\<rparr>]\<rparr>,
          Some (task\<lparr>status := to,
                     assigned_to := (case who of Some a \<Rightarrow> Some a | None \<Rightarrow> assigned_to task)\<rparr>),
          to \<notin> valid_transitions flow (status task))"
proof -
  have "find (\<lambda>t. id' t = i)
          (map (\<lambda>t. if id' t = i
                    then t\<lparr>status := to,
                           assigned_to := (case who of Some a \<Rightarrow> Some a | None \<Rightarrow> assigned_to t)\<rparr>
                    else t)
             (tasks db))
        = Some (task\<lparr>status := to,
                     assigned_to := (case who of Some a \<Rightarrow> Some a | None \<Rightarrow> assigned_to task)\<rparr>)"
    using task by (subst find_after_update) (simp_all add: get_task_def)
  with task flow show ?thesis
    by (simp add: transition_task_def Let_def get_task_def)
qed

text \<open>
  C9, as the code has it. \<open>transition_task\<close> raises for a task that does not exist, and
  when the flow of the task's type does not load the loader's exception leaves the call
  before anything is written. For an existing task whose flow loads, the call always
  returns: the task's status becomes the target whether or not the target is among the
  valid transitions of the former status, one transition record is appended with the
  former status, the target and the agent, its flag \<^verbatim>\<open>valid\<close> is 1 exactly when the target
  is among those valid transitions and 0 otherwise, and the warning is issued exactly
  when it is 0.
\<close>

theorem transition_task_persists:
  "(get_task db i = None \<longrightarrow>
      transition_task depth db i to who = Inl (ValueError (TaskNotFound i)))
   \<and> (\<forall>task e. get_task db i = Some task
         \<and> load_flow depth (db_flows_dir db) (task_type task) = Inl e \<longrightarrow>
         transition_task depth db i to who = Inl e)
   \<and> (\<forall>task flow. get_task db i = Some task
         \<and> load_flow depth (db_flows_dir db) (task_type task) = Inr flow \<longrightarrow>
         (\<exists>db' row.
            transition_task depth db i to who
              = Inr (db', Some row, to \<notin> valid_transitions flow (status task))
            \<and> get_task db' i = Some row \<and> status row = to
            \<and> transitions db' =
                transitions db @
                  [\<lparr>task_id = i, from_status = status task, to_status = to, agent = who,
                    valid = (if to \<in> valid_transitions flow (status task) then 1 else 0)\<rparr>]))"
proof (intro conjI allI impI)
  show "transition_task depth db i to who = Inl (ValueError (TaskNotFound i))"
    if "get_task db i = None"
    using that by (simp add: transition_task_def)
  show "transition_task depth db i to who = Inl e"
    if "get_task db i = Some task
         \<and> load_flow depth (db_flows_dir db) (task_type task) = Inl e" for task e
    using that by (simp add: transition_task_def)
  show "\<exists>db' row.
            transition_task depth db i to who
              = Inr (db', Some row, to \<notin> valid_transitions flow (status task))
            \<and> get_task db' i = Some row \<and> status row = to
            \<and> transitions db' =
                transitions db @
                  [\<lparr>task_id = i, from_status = status task, to_status = to, agent = who,
                    valid = (if to \<in> valid_transitions flow (status task) then 1 else 0)\<rparr>]"
    if h: "get_task db i = Some task
         \<and> load_flow depth (db_flows_dir db) (task_type task) = Inr flow" for task flow
  proof -
    from h have task: "get_task db i = Some task"
      and flow: "load_flow depth (db_flows_dir db) (task_type task) = Inr flow"
      by simp_all
    have "find (\<lambda>t. id' t = i)
          (map (\<lambda>t. if id' t = i
                    then t\<lparr>status := to,
                           assigned_to := (case who of Some a \<Rightarrow> Some a | None \<Rightarrow> assigned_to t)\<rparr>
                    else t)
             (tasks db))
        = Some (task\<lparr>status := to,
                     assigned_to := (case who of Some a \<Rightarrow> Some a | None \<Rightarrow> assigned_to task)\<rparr>)"
      using task by (subst find_after_update) (simp_all add: get_task_def)
    then show ?thesis
      unfolding transition_task_loaded [OF task flow]
      by (simp add: get_task_def)
  qed
qed

theorem transition_task_persists_witness:
  "map_option status (get_task example_db ''HOT-1'') = Some ''open''
   \<and> ''in_progress'' \<notin> valid_transitions hotfix ''open''
   \<and> (\<exists>db' row.
         transition_task 1000 example_db ''HOT-1'' ''in_progress'' (Some ''fighter'')
           = Inr (db', Some row, True)
         \<and> get_task db' ''HOT-1'' = Some row \<and> status row = ''in_progress''
         \<and> transitions db' =
             [\<lparr>task_id = ''HOT-1'', from_status = ''open'', to_status = ''in_progress'',
               agent = Some ''fighter'', valid = 0\<rparr>])"
proof -
  have task: "get_task example_db ''HOT-1'' =
      Some \<lparr>id' = ''HOT-1'', project_id = ''proj'', task_type = ''hotfix'',
            Task.description = ''urgent fix'', file_path = None, status = ''open'',
            class_required = Some ''coder'', assigned_to = None\<rparr>"
    by (simp add: get_task_def example_db_def)
  have flow: "load_flow 1000 (db_flows_dir example_db)
      (task_type \<lparr>id' = ''HOT-1'', project_id = ''proj'', task_type = ''hotfix'',
            Task.description = ''urgent fix'', file_path = None, status = ''open'',
            class_required = Some ''coder'', assigned_to = None\<rparr>) = Inr hotfix"
    using load_hotfix by (simp add: example_db_def)
  have inv: "''in_progress'' \<notin> valid_transitions hotfix ''open''"
    by (simp add: valid_transitions_def truthy_str_def example_flows)
  have empty: "transitions example_db = []"
    by (simp add: example_db_def)
  from transition_task_persists
    [where db = example_db and i = "''HOT-1''" and depth = 1000 and to = "''in_progress''"
      and who = "Some ''fighter''", THEN conjunct2, THEN conjunct2, rule_format, OF conjI,
      OF task flow]
  show ?thesis
    using inv by (simp add: task empty)
qed

text \<open>
  The task \<open>GHOST-1\<close> exists, with status open, but its type has no definition file: the
  call ends in the loader's exception and the task is not updated.
\<close>

theorem transition_task_unloadable_flow:
  "map_option status (get_task example_db ''GHOST-1'') = Some ''open''
   \<and> map_option task_type (get_task example_db ''GHOST-1'') = Some ''ghost''
   \<and> db_flows_dir example_db (flow_file ''ghost'') = None
   \<and> transition_task 1000 example_db ''GHOST-1'' ''assigned'' None
       = Inl (FileNotFoundError (TaskFlowNotFound ''ghost''))"
  by (simp add: transition_task_def get_task_def example_db_def load_flow_def flow_file_def
      example_dir_def)


end
